theory Spec2Isabelle
  imports Main "HOL-Library.Char_ord" "HOL-Library.List_Lexorder" "HOL-Library.Multiset" "HOL-Library.Product_Lexorder"
begin

section \<open>Data model\<close>

text \<open>
  Track URIs, playlist names and change markers are Python strings. Playlist ids are opaque
  tokens handed out by the remote service; they are numbered here. Descriptions are kept as
  lists of Unicode code points, because their sanitisation works on code points.
\<close>

type_synonym uri = string
type_synonym pid = nat
type_synonym ustr = "nat list"

subsection \<open>Python string and list helpers\<close>

definition startswith :: "string \<Rightarrow> string \<Rightarrow> bool" where
  "startswith s p = (take (length p) s = p)"

definition is_digit_char :: "char \<Rightarrow> bool" where
  "is_digit_char c = (c \<in> set ''0123456789'')"

text \<open>\<open>str.isdigit\<close>, for names written in ASCII: false on the empty string.\<close>

definition isdigit :: "string \<Rightarrow> bool" where
  "isdigit s = (s \<noteq> [] \<and> list_all is_digit_char s)"

definition digit_val :: "char \<Rightarrow> nat" where
  "digit_val c = of_char c - 48"

text \<open>\<open>int(s)\<close> on a string of decimal digits.\<close>

definition int_of_str :: "string \<Rightarrow> nat" where
  "int_of_str s = foldl (\<lambda>a c. 10 * a + digit_val c) 0 s"

definition digit_char :: "nat \<Rightarrow> char" where
  "digit_char d = ''0123456789'' ! d"

text \<open>\<open>str(n)\<close> for a non-negative integer.\<close>

function str_nat :: "nat \<Rightarrow> string" where
  "str_nat n = (if n < 10 then [digit_char n] else str_nat (n div 10) @ [digit_char (n mod 10)])"
  by pat_completeness auto
termination
  by (relation "measure id") auto

declare str_nat.simps [simp del]

text \<open>Python's slice \<open>s[:k]\<close>: a negative \<open>k\<close> counts from the end.\<close>

definition py_take :: "int \<Rightarrow> 'a list \<Rightarrow> 'a list" where
  "py_take k xs = (if 0 \<le> k then take (nat k) xs else take (length xs - nat (- k)) xs)"

text \<open>
  Modelled from the spec: \<open>_chunked\<close> (\<open>api_helpers.chunked\<close>) is not among the sources. It cuts a
  list into batches of a fixed size, in list order.
\<close>

function chunked :: "'a list \<Rightarrow> nat \<Rightarrow> 'a list list" where
  "chunked xs n = (if xs = [] \<or> n = 0 then [] else take n xs # chunked (drop n xs) n)"
  by pat_completeness auto
termination
  by (relation "measure (\<lambda>(xs, n). length xs)") auto

declare chunked.simps [simp del]

text \<open>Order-preserving deduplication, \<open>[u for u in uris if not (u in seen or seen.add(u))]\<close>:
  the first occurrence of every element is kept.\<close>

fun dedup_into :: "'a list \<Rightarrow> 'a list \<Rightarrow> 'a list" where
  "dedup_into acc [] = acc"
| "dedup_into acc (x # xs) = (if x \<in> set acc then dedup_into acc xs else dedup_into (acc @ [x]) xs)"

subsection \<open>Calendar months\<close>

text \<open>
  Only the year and the month of \<open>datetime.now()\<close> matter. \<open>now - relativedelta(months=k)\<close> moves
  \<open>k\<close> months back (forward when \<open>k\<close> is negative) and raises when the year leaves 1..9999.
  \<open>strftime("%Y-%m")\<close> writes the year in decimal and the month with two digits.
\<close>

type_synonym ym = "nat \<times> nat"

definition minus_months :: "ym \<Rightarrow> int \<Rightarrow> ym option" where
  "minus_months d k =
     (let t = int (fst d) * 12 + int (snd d) - 1 - k; y = t div 12
      in if 1 \<le> y \<and> y \<le> 9999 then Some (nat y, nat (t mod 12) + 1) else None)"

definition pad2 :: "nat \<Rightarrow> string" where
  "pad2 m = (if m < 10 then CHR ''0'' # str_nat m else str_nat m)"

definition strftime_Ym :: "ym \<Rightarrow> string" where
  "strftime_Ym d = str_nat (fst d) @ ''-'' @ pad2 (snd d)"

subsection \<open>Configuration\<close>

datatype ptype = Monthly | Most_played | Discovery

definition MONTH_NAMES :: "(string \<times> string) list" where
  "MONTH_NAMES =
     [(''01'', ''Jan''), (''02'', ''Feb''), (''03'', ''Mar''), (''04'', ''Apr''),
      (''05'', ''May''), (''06'', ''Jun''), (''07'', ''Jul''), (''08'', ''Aug''),
      (''09'', ''Sep''), (''10'', ''Oct''), (''11'', ''Nov''), (''12'', ''Dec'')]"

text \<open>
  The settings of \<open>config.py\<close> that the playlist functions read. The three formatters stand for
  the calls of \<open>format_playlist_name\<close>, \<open>format_yearly_playlist_name\<close> and
  \<open>format_playlist_description\<close>, whose result depends on the formatting options; the functions
  below never look inside the names they return.
\<close>

record config =
  OWNER_NAME :: string
  PREFIX_MONTHLY :: string
  PREFIX_MOST_PLAYED :: string
  PREFIX_DISCOVERY :: string
  ENABLE_MONTHLY :: bool
  ENABLE_MOST_PLAYED :: bool
  ENABLE_DISCOVERY :: bool
  monthly_name :: "string \<Rightarrow> string"
  yearly_finds_name :: "string \<Rightarrow> string"
  yearly_name :: "string \<Rightarrow> ptype \<Rightarrow> string"
  playlist_description :: "string \<Rightarrow> string \<Rightarrow> ptype \<Rightarrow> ustr"

definition SPOTIFY_MAX_DESCRIPTION_LENGTH :: int where
  "SPOTIFY_MAX_DESCRIPTION_LENGTH = 300"

definition prefix_of :: "config \<Rightarrow> ptype \<Rightarrow> string" where
  "prefix_of cfg t =
     (case t of Monthly \<Rightarrow> PREFIX_MONTHLY cfg | Most_played \<Rightarrow> PREFIX_MOST_PLAYED cfg
      | Discovery \<Rightarrow> PREFIX_DISCOVERY cfg)"

text \<open>\<open>year_short = str(year)[2:] if len(str(year)) == 4 else str(year)\<close>\<close>

definition year_short :: "nat \<Rightarrow> string" where
  "year_short y = (if length (str_nat y) = 4 then drop 2 (str_nat y) else str_nat y)"

text \<open>The names under the default options: template \<open>{owner}{prefix}{mon}{year}\<close> with the short
  month name and the two-digit year, and \<open>{owner}{prefix}{year}\<close> for a year.\<close>

definition default_monthly_name :: "string \<Rightarrow> string" where
  "default_monthly_name month =
     (let full_year = takeWhile (\<lambda>c. c \<noteq> CHR ''-'') month;
          month_num = takeWhile (\<lambda>c. c \<noteq> CHR ''-'') (drop (length full_year + 1) month);
          mon = (case map_of MONTH_NAMES month_num of Some a \<Rightarrow> a | None \<Rightarrow> month_num);
          yy = (if length full_year = 4 then drop 2 full_year else full_year)
      in ''AJ'' @ ''Finds'' @ mon @ yy)"

definition default_yearly_name :: "string \<Rightarrow> ptype \<Rightarrow> string" where
  "default_yearly_name ys t =
     ''AJ'' @ (case t of Monthly \<Rightarrow> ''Finds'' | Most_played \<Rightarrow> ''Top'' | Discovery \<Rightarrow> ''Discovery'')
       @ (if length ys = 4 then drop 2 ys else ys)"

definition default_yearly_finds_name :: "string \<Rightarrow> string" where
  "default_yearly_finds_name ys = ''AJ'' @ ''Finds'' @ (if length ys = 4 then drop 2 ys else ys)"

definition default_description :: "string \<Rightarrow> string \<Rightarrow> ptype \<Rightarrow> ustr" where
  "default_description d period t = map of_char (d @ '' from '' @ period)"

definition default_config :: config where
  "default_config =
     \<lparr>OWNER_NAME = ''AJ'', PREFIX_MONTHLY = ''Finds'', PREFIX_MOST_PLAYED = ''Top'',
      PREFIX_DISCOVERY = ''Discovery'', ENABLE_MONTHLY = True, ENABLE_MOST_PLAYED = True,
      ENABLE_DISCOVERY = True, monthly_name = default_monthly_name,
      yearly_finds_name = default_yearly_finds_name, yearly_name = default_yearly_name,
      playlist_description = default_description\<rparr>"

section \<open>The remote service and the local caches\<close>

record playlist =
  pl_name :: string
  pl_description :: ustr
  pl_snapshot_id :: string
  pl_tracks :: "uri list"

text \<open>The remote calls the functions below make through \<open>api_call\<close>.\<close>

datatype api_op =
    Get_playlist pid
  | Get_playlist_items pid
  | Playlist_add_items pid "uri list"
  | User_playlist_create string ustr
  | User_playlist_change_details pid ustr
  | Unfollow_playlist pid

record backup =
  bk_name :: string
  bk_id :: pid
  bk_tracks :: "uri list"

text \<open>
  The state a run works on: the playlists of the remote service with the validation it applies
  to a description, the record of the remote calls made so far (oldest first), and the local
  caches: \<open>_playlist_tracks_cache\<close>, the description snapshot cache as
  \<open>_load_snapshot_cache\<close> reads it, and the backup files written.
\<close>

record world =
  playlists :: "pid \<Rightarrow> playlist option"
  next_pid :: pid
  accepts_description :: "ustr \<Rightarrow> bool"
  calls :: "api_op list"
  tracks_cache :: "pid \<Rightarrow> uri list option"
  snapshot_cache :: "pid \<Rightarrow> string option"
  backups :: "backup list"

text \<open>The remote service gives a playlist a new change marker whenever it changes.\<close>

definition next_marker :: "string \<Rightarrow> string" where
  "next_marker s = s @ ''+''"

definition called :: "api_op \<Rightarrow> world \<Rightarrow> world" where
  "called c w = w\<lparr>calls := calls w @ [c]\<rparr>"

text \<open>\<open>sp.playlist(playlist_id, fields=...)\<close>: \<open>None\<close> stands for the exception of a failed call.\<close>

definition api_playlist :: "pid \<Rightarrow> world \<Rightarrow> playlist option \<times> world" where
  "api_playlist p w = (playlists w p, called (Get_playlist p) w)"

definition api_playlist_add_items :: "pid \<Rightarrow> uri list \<Rightarrow> world \<Rightarrow> bool \<times> world" where
  "api_playlist_add_items p us w =
     (case playlists w p of
        None \<Rightarrow> (False, called (Playlist_add_items p us) w)
      | Some pl \<Rightarrow>
          (True, called (Playlist_add_items p us)
             (w\<lparr>playlists := (playlists w)
                 (p \<mapsto> pl\<lparr>pl_tracks := pl_tracks pl @ us,
                          pl_snapshot_id := next_marker (pl_snapshot_id pl)\<rparr>)\<rparr>)))"

definition api_user_playlist_create :: "string \<Rightarrow> ustr \<Rightarrow> world \<Rightarrow> pid \<times> world" where
  "api_user_playlist_create name d w =
     (next_pid w, called (User_playlist_create name d)
        (w\<lparr>playlists := (playlists w)
            (next_pid w \<mapsto> \<lparr>pl_name = name, pl_description = d, pl_snapshot_id = ''0'',
                            pl_tracks = []\<rparr>),
           next_pid := Suc (next_pid w)\<rparr>))"

definition api_change_details :: "pid \<Rightarrow> ustr \<Rightarrow> world \<Rightarrow> bool \<times> world" where
  "api_change_details p d w =
     (case playlists w p of
        None \<Rightarrow> (False, called (User_playlist_change_details p d) w)
      | Some pl \<Rightarrow>
          if accepts_description w d
          then (True, called (User_playlist_change_details p d)
             (w\<lparr>playlists := (playlists w)
                 (p \<mapsto> pl\<lparr>pl_description := d,
                          pl_snapshot_id := next_marker (pl_snapshot_id pl)\<rparr>)\<rparr>))
          else (False, called (User_playlist_change_details p d) w))"

definition api_unfollow :: "pid \<Rightarrow> world \<Rightarrow> bool \<times> world" where
  "api_unfollow p w =
     (case playlists w p of
        None \<Rightarrow> (False, called (Unfollow_playlist p) w)
      | Some pl \<Rightarrow> (True, called (Unfollow_playlist p) (w\<lparr>playlists := (playlists w)(p := None)\<rparr>)))"

text \<open>
  Modelled from the spec: \<open>catalog.get_playlist_tracks(sp, playlist_id, force_refresh)\<close> is not among
  the sources. It returns the set of track URIs of a playlist, from \<open>_playlist_tracks_cache\<close>
  unless the cache is bypassed; the callers subtract, test membership and iterate over the
  result. The set is kept as a duplicate-free list in playlist order; \<open>None\<close> is the exception
  of a failed fetch.
\<close>

definition get_playlist_tracks :: "pid \<Rightarrow> bool \<Rightarrow> world \<Rightarrow> uri list option \<times> world" where
  "get_playlist_tracks p force_refresh w =
     (case (if force_refresh then None else tracks_cache w p) of
        Some ts \<Rightarrow> (Some ts, w)
      | None \<Rightarrow>
          (case playlists w p of
             None \<Rightarrow> (None, called (Get_playlist_items p) w)
           | Some pl \<Rightarrow>
               (Some (remdups (pl_tracks pl)),
                called (Get_playlist_items p)
                  (w\<lparr>tracks_cache := (tracks_cache w)(p \<mapsto> remdups (pl_tracks pl))\<rparr>))))"

text \<open>
  Modelled from the spec: \<open>data_protection.safe_delete_playlist\<close> is not among the sources. The
  spec's algorithm: fetch the target's current tracks; write the backup when asked; when a
  playlist to verify against is given, re-fetch it bypassing the cache and abort unless it holds
  every track of the target; issue the remote delete; return success and the backup.
\<close>

definition safe_delete_playlist ::
  "pid \<Rightarrow> string \<Rightarrow> bool \<Rightarrow> pid option \<Rightarrow> world \<Rightarrow> (bool \<times> backup option) \<times> world" where
  "safe_delete_playlist p name create_backup verify_tracks_preserved_in w =
     (case get_playlist_tracks p True w of
        (None, w1) \<Rightarrow> ((False, None), w1)
      | (Some ts, w1) \<Rightarrow>
          (let bk = \<lparr>bk_name = name, bk_id = p, bk_tracks = ts\<rparr>;
               w2 = (if create_backup then w1\<lparr>backups := backups w1 @ [bk]\<rparr> else w1);
               backup_file = (if create_backup then Some bk else None)
           in case verify_tracks_preserved_in of
                None \<Rightarrow> (case api_unfollow p w2 of (ok, w3) \<Rightarrow> ((ok, backup_file), w3))
              | Some v \<Rightarrow>
                  (case get_playlist_tracks v True w2 of
                     (None, w3) \<Rightarrow> ((False, backup_file), w3)
                   | (Some vs, w3) \<Rightarrow>
                       if set ts \<subseteq> set vs
                       then (case api_unfollow p w3 of (ok, w4) \<Rightarrow> ((ok, backup_file), w4))
                       else ((False, backup_file), w3))))"

section \<open>Descriptions\<close>

text \<open>
  What the description code takes from Python's standard library and from the base-line helpers:
  \<open>unicodedata.normalize("NFC", s)\<close>, \<open>unicodedata.category(c)\<close>, the white space that
  \<open>str.strip\<close> removes, and \<open>simple_description current_description playlist_name\<close>, the line that
  \<open>build_simple_description\<close> and \<open>_strip_parentheses\<close> leave of the first line of the current
  description, of the line derived from the playlist name, or of the name itself.
\<close>

record textenv =
  normalize_NFC :: "ustr \<Rightarrow> ustr"
  category :: "nat \<Rightarrow> string"
  isspace :: "nat \<Rightarrow> bool"
  simple_description :: "ustr \<Rightarrow> string \<Rightarrow> ustr"

definition problematic :: "textenv \<Rightarrow> nat \<Rightarrow> bool" where
  "problematic env cp =
     (let cat = category env cp
      in startswith cat ''C''
         \<or> (0xFE00 \<le> cp \<and> cp \<le> 0xFE0F)
         \<or> (cat = ''So'' \<and> 0x1F300 \<le> cp)
         \<or> (cat = ''Sk'' \<and> 0x1F3FB \<le> cp \<and> cp \<le> 0x1F3FF))"

definition strip_emoji_and_problematic :: "textenv \<Rightarrow> ustr \<Rightarrow> ustr" where
  "strip_emoji_and_problematic env s = filter (\<lambda>cp. \<not> problematic env cp) s"

text \<open>The character class \<open>[\x00-\x08\x0B-\x0C\x0E-\x1F\x7F]\<close>.\<close>

definition control_class :: "nat \<Rightarrow> bool" where
  "control_class cp = (cp \<le> 8 \<or> cp = 11 \<or> cp = 12 \<or> (14 \<le> cp \<and> cp \<le> 31) \<or> cp = 127)"

text \<open>\<open>s.split("\n")\<close> and \<open>"\n".join(lines)\<close>.\<close>

fun split_lines :: "ustr \<Rightarrow> ustr list" where
  "split_lines [] = [[]]"
| "split_lines (c # cs) =
     (if c = 10 then [] # split_lines cs
      else (case split_lines cs of [] \<Rightarrow> [[c]] | l # ls \<Rightarrow> (c # l) # ls))"

fun join_lines :: "ustr list \<Rightarrow> ustr" where
  "join_lines [] = []"
| "join_lines [l] = l"
| "join_lines (l # ls) = l @ 10 # join_lines ls"

definition is_surrogate :: "nat \<Rightarrow> bool" where
  "is_surrogate cp = (0xD800 \<le> cp \<and> cp \<le> 0xDFFF)"

text \<open>\<open>s.encode("utf-8", errors="replace").decode("utf-8")\<close>: a lone surrogate cannot be encoded and
  becomes a question mark.\<close>

definition encode_replace :: "ustr \<Rightarrow> ustr" where
  "encode_replace s = map (\<lambda>cp. if is_surrogate cp then 63 else cp) s"

definition dots :: ustr where
  "dots = [46, 46, 46]"

definition truncate_description :: "int \<Rightarrow> ustr \<Rightarrow> ustr" where
  "truncate_description max_length s =
     (if int (length s) > max_length then
        (let lines = split_lines s in
         if lines \<noteq> [] \<and> int (length (hd lines)) \<le> max_length - 10 then
           (let rest = join_lines (tl lines);
                keep = max_length - int (length (hd lines)) - 5
            in if keep > 0 \<and> int (length rest) > keep
               then hd lines @ [10] @ py_take keep rest @ dots
               else py_take (max_length - 3) (hd lines) @ dots)
         else py_take (max_length - 3) s @ dots)
      else s)"

definition sanitize_description_for_api :: "textenv \<Rightarrow> ustr option \<Rightarrow> int \<Rightarrow> ustr" where
  "sanitize_description_for_api env description max_length =
     (case description of
        None \<Rightarrow> []
      | Some d \<Rightarrow>
          (let s = normalize_NFC env d;
               s = strip_emoji_and_problematic env s;
               s = filter (\<lambda>cp. \<not> control_class cp) s;
               s = filter (\<lambda>cp. cp \<noteq> 13) s;
               s = truncate_description max_length s;
               s = (if int (length s) > max_length then py_take max_length s else s)
           in encode_replace s))"

text \<open>
  \<open>_update_playlist_description_with_genres(sp, user_id, playlist_id, track_uris)\<close>. An exception
  anywhere inside is caught and gives \<open>False\<close>. Writing the snapshot cache is taken to succeed.
\<close>

definition remember_snapshot :: "pid \<Rightarrow> string \<Rightarrow> world \<Rightarrow> world" where
  "remember_snapshot p snapshot_id w =
     (if snapshot_id \<noteq> [] then w\<lparr>snapshot_cache := (snapshot_cache w)(p \<mapsto> snapshot_id)\<rparr> else w)"

text \<open>Lines 77 to 91: the new description, sanitised and cut to the maximum length.\<close>

definition new_description_for :: "textenv \<Rightarrow> ustr \<Rightarrow> string \<Rightarrow> ustr" where
  "new_description_for env current_description playlist_name =
     (let d = simple_description env current_description playlist_name;
          d = sanitize_description_for_api env (Some d) SPOTIFY_MAX_DESCRIPTION_LENGTH
      in if int (length d) > SPOTIFY_MAX_DESCRIPTION_LENGTH
         then py_take SPOTIFY_MAX_DESCRIPTION_LENGTH d else d)"

text \<open>Lines 93 to 131: nothing is pushed for a blank description; a description that differs
  from the current one is pushed, once more after re-encoding when it cannot be encoded; the
  marker is remembered after a push and when nothing had to change.\<close>

definition push_description ::
  "pid \<Rightarrow> string \<Rightarrow> ustr \<Rightarrow> (nat \<Rightarrow> bool) \<Rightarrow> ustr \<Rightarrow> world \<Rightarrow> bool \<times> world" where
  "push_description p snapshot_id current_description space new_description w =
     (if list_all space new_description then (False, w)
      else if new_description \<noteq> current_description then
        (if list_ex is_surrogate new_description then
           api_change_details p
             (py_take SPOTIFY_MAX_DESCRIPTION_LENGTH (encode_replace new_description)) w
         else
           (case api_change_details p new_description w of
              (True, w1) \<Rightarrow> (True, remember_snapshot p snapshot_id w1)
            | (False, w1) \<Rightarrow> (False, w1)))
      else (False, remember_snapshot p snapshot_id w))"

text \<open>Lines 63 to 64: \<open>track_uris\<close> defaults to the playlist's tracks, from the cache when it has
  them.\<close>

definition resolve_track_uris :: "pid \<Rightarrow> uri list option \<Rightarrow> world \<Rightarrow> uri list option \<times> world" where
  "resolve_track_uris p track_uris w =
     (case track_uris of None \<Rightarrow> get_playlist_tracks p False w | Some ts \<Rightarrow> (Some ts, w))"

definition update_playlist_description_with_genres ::
  "textenv \<Rightarrow> pid \<Rightarrow> uri list option \<Rightarrow> world \<Rightarrow> bool \<times> world" where
  "update_playlist_description_with_genres env p track_uris w =
     (case api_playlist p w of
        (None, w1) \<Rightarrow> (False, w1)
      | (Some pl, w1) \<Rightarrow>
          if pl_snapshot_id pl \<noteq> [] \<and> snapshot_cache w1 p = Some (pl_snapshot_id pl)
          then (False, w1)
          else
            (case resolve_track_uris p track_uris w1 of
               (None, w2) \<Rightarrow> (False, w2)
             | (Some ts, w2) \<Rightarrow>
                 if ts = [] then (False, w2)
                 else push_description p (pl_snapshot_id pl) (pl_description pl) (isspace env)
                        (new_description_for env (pl_description pl) (pl_name pl)) w2))"

section \<open>The snapshot cache file\<close>

text \<open>
  \<open>_save_snapshot_cache\<close> opens the cache file for writing and lets \<open>json.dump\<close> write the pieces of
  the serialisation into it. Files are their contents; a crash (or an exception, which the
  function swallows) stops the sequence of file operations at any point.
\<close>

type_synonym path = string
type_synonym files = "path \<Rightarrow> string option"

datatype file_op =
    Open_for_writing path
  | Write_chunk path string
  | Close_file path
  | Replace_file path path

fun file_step :: "files \<Rightarrow> file_op \<Rightarrow> files" where
  "file_step fs (Open_for_writing p) = fs(p \<mapsto> [])"
| "file_step fs (Write_chunk p s) = (case fs p of None \<Rightarrow> fs | Some c \<Rightarrow> fs(p \<mapsto> c @ s))"
| "file_step fs (Close_file p) = fs"
| "file_step fs (Replace_file a b) = (case fs a of None \<Rightarrow> fs | Some c \<Rightarrow> (fs(b \<mapsto> c))(a := None))"

definition save_snapshot_cache :: "path \<Rightarrow> string list \<Rightarrow> file_op list" where
  "save_snapshot_cache path chunks =
     Open_for_writing path # map (Write_chunk path) chunks @ [Close_file path]"

text \<open>The write the spec asks for: into a temporary file that then replaces the cache file.\<close>

definition write_temp_then_replace :: "path \<Rightarrow> path \<Rightarrow> string list \<Rightarrow> file_op list" where
  "write_temp_then_replace path tmp chunks =
     Open_for_writing tmp # map (Write_chunk tmp) chunks @ [Close_file tmp, Replace_file tmp path]"

definition crash_after :: "nat \<Rightarrow> file_op list \<Rightarrow> files \<Rightarrow> files" where
  "crash_after k ops fs = foldl file_step fs (take k ops)"

text \<open>\<open>_load_snapshot_cache\<close>: a missing file and a file \<open>json.load\<close> rejects both read as the empty
  cache. The parser is Python's.\<close>

definition load_snapshot_cache ::
  "(string \<Rightarrow> (string \<times> string) list option) \<Rightarrow> path \<Rightarrow> files \<Rightarrow> (string \<times> string) list" where
  "load_snapshot_cache json_load path fs =
     (case fs path of
        None \<Rightarrow> []
      | Some c \<Rightarrow> (case json_load c of None \<Rightarrow> [] | Some cache \<Rightarrow> cache))"

section \<open>Monthly update\<close>

text \<open>Line 219 of \<open>playlist_update.py\<close>: \<open>to_add = [u for u in track_uris if u not in already]\<close>.\<close>

definition monthly_to_add :: "uri list \<Rightarrow> uri list \<Rightarrow> uri list" where
  "monthly_to_add track_uris already = filter (\<lambda>u. u \<notin> set already) track_uris"

text \<open>\<open>for chunk in chunks: api_call(sp.playlist_add_items, pid, chunk)\<close>; \<open>False\<close> when a call
  raised.\<close>

fun add_chunks :: "pid \<Rightarrow> uri list list \<Rightarrow> world \<Rightarrow> bool \<times> world" where
  "add_chunks p [] w = (True, w)"
| "add_chunks p (c # cs) w =
     (case api_playlist_add_items p c w of
        (False, w1) \<Rightarrow> (False, w1)
      | (True, w1) \<Rightarrow> add_chunks p cs w1)"

text \<open>The branch for a playlist that exists (lines 216 to 230); \<open>False\<close> when an exception
  escaped.\<close>

definition update_existing_monthly :: "textenv \<Rightarrow> pid \<Rightarrow> uri list \<Rightarrow> world \<Rightarrow> bool \<times> world" where
  "update_existing_monthly env p track_uris w =
     (case get_playlist_tracks p False w of
        (None, w1) \<Rightarrow> (False, w1)
      | (Some already, w1) \<Rightarrow>
          (let to_add = monthly_to_add track_uris already
           in if to_add \<noteq> [] then
                (case add_chunks p (chunked to_add 50) w1 of
                   (False, w2) \<Rightarrow> (False, w2)
                 | (True, w2) \<Rightarrow>
                     (True, snd (update_playlist_description_with_genres env p (Some track_uris)
                                  (w2\<lparr>tracks_cache := (tracks_cache w2)(p := None)\<rparr>))))
              else (True, snd (update_playlist_description_with_genres env p (Some track_uris) w1))))"







section \<open>Consolidation into yearly playlists\<close>

text \<open>The dictionary \<open>playlist_types\<close>, in insertion order, of the enabled types.\<close>

definition playlist_types :: "config \<Rightarrow> (ptype \<times> string) list" where
  "playlist_types cfg =
     (if ENABLE_MONTHLY cfg then [(Monthly, PREFIX_MONTHLY cfg)] else [])
     @ (if ENABLE_MOST_PLAYED cfg then [(Most_played, PREFIX_MOST_PLAYED cfg)] else [])
     @ (if ENABLE_DISCOVERY cfg then [(Discovery, PREFIX_DISCOVERY cfg)] else [])"

text \<open>
  Lines 92 to 128: the first playlist type whose \<open>{owner}{prefix}\<close> starts the name decides; under
  it the first month abbreviation that follows decides; the rest must be digits and is the year
  (two digits count from 2000). The result is the type, the year and the string
  \<open>f"{year}-{month_num}"\<close>.
\<close>

definition parse_monthly_name :: "config \<Rightarrow> string \<Rightarrow> (ptype \<times> nat \<times> string) option" where
  "parse_monthly_name cfg playlist_name =
     (case find (\<lambda>(t, prefix). startswith playlist_name (OWNER_NAME cfg @ prefix))
             (playlist_types cfg) of
        None \<Rightarrow> None
      | Some (playlist_type, prefix) \<Rightarrow>
          (let monthly_pattern = OWNER_NAME cfg @ prefix
           in case find (\<lambda>mon_abbr. startswith playlist_name (monthly_pattern @ mon_abbr))
                     (map snd MONTH_NAMES) of
                None \<Rightarrow> None
              | Some mon_abbr \<Rightarrow>
                  (let remaining = drop (length (monthly_pattern @ mon_abbr)) playlist_name
                   in if isdigit remaining then
                        (let year = (if length remaining = 2 then 2000 + int_of_str remaining
                                     else int_of_str remaining)
                         in case find (\<lambda>(num, abbr). abbr = mon_abbr) MONTH_NAMES of
                              None \<Rightarrow> None
                            | Some (month_num, abbr) \<Rightarrow>
                                if month_num \<noteq> []
                                then Some (playlist_type, year, str_nat year @ ''-'' @ month_num)
                                else None)
                      else None)))"

text \<open>
  The dictionary \<open>monthly_playlists\<close> (\<open>{year: {type: [(name, id), ...]}}\<close>) as the list of its
  entries in the order they were appended: the playlists whose month string is at or before the
  cut-off string.
\<close>

definition select_monthly_playlists ::
  "config \<Rightarrow> string \<Rightarrow> (string \<times> pid) list \<Rightarrow> (nat \<times> ptype \<times> string \<times> pid) list" where
  "select_monthly_playlists cfg cutoff_year_month existing =
     List.map_filter
       (\<lambda>(playlist_name, playlist_id).
          case parse_monthly_name cfg playlist_name of
            None \<Rightarrow> None
          | Some (playlist_type, year, month_str) \<Rightarrow>
              if month_str \<le> cutoff_year_month
              then Some (year, playlist_type, playlist_name, playlist_id) else None)
       existing"

text \<open>\<open>monthly_playlists[year][playlist_type]\<close>.\<close>

definition monthly_of ::
  "(nat \<times> ptype \<times> string \<times> pid) list \<Rightarrow> nat \<Rightarrow> ptype \<Rightarrow> (string \<times> pid) list" where
  "monthly_of monthly_playlists year t =
     map (\<lambda>(y, ty, n, p). (n, p)) (filter (\<lambda>(y, ty, n, p). y = year \<and> ty = t) monthly_playlists)"

text \<open>
  The data read from the snapshot store and from the streaming history: the liked songs per
  year, the ranked tracks per year and type, and the rows of the history (track URI, year,
  milliseconds played or a null).
\<close>

record sources =
  year_to_tracks :: "(nat \<times> uri list) list"
  year_to_tracks_history :: "(nat \<times> (ptype \<times> uri list) list) list"
  history_rows :: "(uri \<times> nat \<times> nat option) list"

text \<open>The aggregate \<open>play_count\<close> of a track in a year: the rows of that year with that track whose
  \<open>ms_played\<close> is not null. It is also \<open>play_count_map.get(uri, 0)\<close>.\<close>

definition play_count :: "(uri \<times> nat \<times> nat option) list \<Rightarrow> nat \<Rightarrow> uri \<Rightarrow> nat" where
  "play_count rows year u =
     length (filter (\<lambda>(u', y, ms). u' = u \<and> y = year \<and> ms \<noteq> None) rows)"

text \<open>\<open>xs.sort(key=k, reverse=True)\<close>: Python reverses the list, sorts it stably and reverses the
  result, so that equal keys keep their order.\<close>

definition sort_reverse :: "('a \<Rightarrow> 'k::linorder) \<Rightarrow> 'a list \<Rightarrow> 'a list" where
  "sort_reverse k xs = rev (sort_key k (rev xs))"

text \<open>Lines 330 to 368. Without usable history rows of the year the list stays as it is.\<close>

definition resort_by_play_count ::
  "sources \<Rightarrow> nat \<Rightarrow> ptype \<Rightarrow> bool \<Rightarrow> uri list \<Rightarrow> uri list" where
  "resort_by_play_count src year t tracks_from_monthly all_tracks_list =
     (if all_tracks_list \<noteq> [] \<and> (t = Most_played \<or> t = Discovery) \<and> tracks_from_monthly
         \<and> history_rows src \<noteq> []
         \<and> filter (\<lambda>(u, y, ms). y = year) (history_rows src) \<noteq> []
         \<and> t = Most_played
      then sort_reverse (\<lambda>u. (play_count (history_rows src) year u, 0::nat)) all_tracks_list
      else all_tracks_list)"

text \<open>Lines 300 to 309: the tracks of the monthly playlists, each once, in the order met.\<close>

fun gather_monthly_tracks ::
  "(string \<times> pid) list \<Rightarrow> uri list \<Rightarrow> world \<Rightarrow> uri list option \<times> world" where
  "gather_monthly_tracks [] acc w = (Some acc, w)"
| "gather_monthly_tracks ((m_name, m_id) # ms) acc w =
     (case get_playlist_tracks m_id False w of
        (None, w1) \<Rightarrow> (None, w1)
      | (Some tracks, w1) \<Rightarrow> gather_monthly_tracks ms (dedup_into acc tracks) w1)"

text \<open>Lines 311 to 328: the other sources, used when the monthly playlists gave nothing.\<close>

definition fallback_tracks :: "sources \<Rightarrow> nat \<Rightarrow> ptype \<Rightarrow> uri list" where
  "fallback_tracks src year t =
     (case t of
        Monthly \<Rightarrow>
          (case map_of (year_to_tracks src) year of None \<Rightarrow> [] | Some ts \<Rightarrow> dedup_into [] ts)
      | _ \<Rightarrow>
          (case map_of (year_to_tracks_history src) year of
             None \<Rightarrow> []
           | Some h \<Rightarrow> (case map_of h t of None \<Rightarrow> [] | Some ts \<Rightarrow> dedup_into [] ts)))"

text \<open>\<open>u and isinstance(u, str)\<close>: a URI counts when it is a non-empty string.\<close>

definition valid_uri :: "uri \<Rightarrow> bool" where
  "valid_uri u = (u \<noteq> [])"

text \<open>Line 403: \<open>to_add = [u for u in filtered_tracks if u and isinstance(u, str) and u not in already]\<close>.\<close>

definition yearly_to_add :: "uri list \<Rightarrow> uri list \<Rightarrow> uri list" where
  "yearly_to_add filtered_tracks already =
     filter (\<lambda>u. valid_uri u \<and> u \<notin> set already) filtered_tracks"

text \<open>Lines 405 to 408: every batch is filtered once more and sent when something is left.\<close>

fun add_valid_chunks :: "pid \<Rightarrow> uri list list \<Rightarrow> world \<Rightarrow> bool \<times> world" where
  "add_valid_chunks p [] w = (True, w)"
| "add_valid_chunks p (c # cs) w =
     (if filter valid_uri c \<noteq> [] then
        (case api_playlist_add_items p (filter valid_uri c) w of
           (False, w1) \<Rightarrow> (False, w1)
         | (True, w1) \<Rightarrow> add_valid_chunks p cs w1)
      else add_valid_chunks p cs w)"

datatype 'a outcome = Raised | Skipped | Done 'a

text \<open>
  Lines 394 to 428: add to the yearly playlist that exists, or create it. \<open>Skipped\<close> is the
  \<open>continue\<close> taken for a playlist that exists when the year has no monthly playlist left.
\<close>

definition ensure_yearly_playlist ::
  "config \<Rightarrow> textenv \<Rightarrow> (string \<times> pid) list \<Rightarrow> bool \<Rightarrow> string \<Rightarrow> ustr \<Rightarrow> uri list \<Rightarrow> world
    \<Rightarrow> pid outcome \<times> world" where
  "ensure_yearly_playlist cfg env existing year_in_monthly playlist_name description
       filtered_tracks w =
     (case map_of existing playlist_name of
        Some p \<Rightarrow>
          if \<not> year_in_monthly then (Skipped, w)
          else
            (case get_playlist_tracks p False w of
               (None, w1) \<Rightarrow> (Raised, w1)
             | (Some already, w1) \<Rightarrow>
                 (let to_add = yearly_to_add filtered_tracks already
                  in if to_add \<noteq> [] then
                       (case add_valid_chunks p (chunked to_add 50) w1 of
                          (False, w2) \<Rightarrow> (Raised, w2)
                        | (True, w2) \<Rightarrow>
                            (Done p, snd (update_playlist_description_with_genres env p None w2)))
                     else (Done p, snd (update_playlist_description_with_genres env p None w1))))
      | None \<Rightarrow>
          (case api_user_playlist_create playlist_name description w of
             (p, w1) \<Rightarrow>
               (let valid_tracks = filter valid_uri filtered_tracks
                in case add_chunks p (chunked valid_tracks 50) w1 of
                     (False, w2) \<Rightarrow> (Raised, w2)
                   | (True, w2) \<Rightarrow>
                       (Done p, snd (update_playlist_description_with_genres env p
                                       (Some valid_tracks) w2)))))"

text \<open>
  Lines 432 to 451: a monthly playlist is deleted when none of its tracks, fetched anew, is
  missing from the yearly playlist's tracks, and then only through \<open>safe_delete_playlist\<close> with
  the yearly playlist to verify against. An exception is logged and the loop goes on.
\<close>

fun delete_verified_monthlies ::
  "pid \<Rightarrow> uri list \<Rightarrow> (string \<times> pid) list \<Rightarrow> world \<Rightarrow> world" where
  "delete_verified_monthlies yearly final_yearly_tracks [] w = w"
| "delete_verified_monthlies yearly final_yearly_tracks ((m_name, m_id) # ms) w =
     (case get_playlist_tracks m_id True w of
        (None, w1) \<Rightarrow> delete_verified_monthlies yearly final_yearly_tracks ms w1
      | (Some monthly_tracks, w1) \<Rightarrow>
          if \<not> set monthly_tracks \<subseteq> set final_yearly_tracks
          then delete_verified_monthlies yearly final_yearly_tracks ms w1
          else delete_verified_monthlies yearly final_yearly_tracks ms
                 (snd (safe_delete_playlist m_id m_name True (Some yearly) w1)))"

definition type_title :: "ptype \<Rightarrow> string" where
  "type_title t =
     (case t of Monthly \<Rightarrow> ''All tracks'' | Most_played \<Rightarrow> ''Most Played tracks''
      | Discovery \<Rightarrow> ''Discovery tracks'')"

text \<open>The body of the loop over the playlist types (lines 294 to 451) for one year; \<open>False\<close> when
  an exception escaped.\<close>

definition consolidate_type ::
  "config \<Rightarrow> textenv \<Rightarrow> sources \<Rightarrow> (string \<times> pid) list \<Rightarrow> (nat \<times> ptype \<times> string \<times> pid) list
    \<Rightarrow> nat \<Rightarrow> ptype \<Rightarrow> world \<Rightarrow> bool \<times> world" where
  "consolidate_type cfg env src existing monthly_playlists year t w =
     (let monthlies = monthly_of monthly_playlists year t
      in case gather_monthly_tracks monthlies [] w of
           (None, w1) \<Rightarrow> (False, w1)
         | (Some from_monthly, w1) \<Rightarrow>
             (let all_tracks_list =
                    (if from_monthly = [] then fallback_tracks src year t else from_monthly);
                  all_tracks_list =
                    resort_by_play_count src year t (monthlies \<noteq> []) all_tracks_list
              in if all_tracks_list = [] then (True, w1)
                 else
                   (let playlist_name =
                          (case t of Monthly \<Rightarrow> yearly_finds_name cfg (str_nat year)
                           | _ \<Rightarrow> yearly_name cfg (year_short year) t);
                        description = playlist_description cfg (type_title t) (str_nat year) t
                    in case ensure_yearly_playlist cfg env existing
                              (year \<in> fst ` set monthly_playlists) playlist_name description
                              all_tracks_list w1 of
                         (Raised, w2) \<Rightarrow> (False, w2)
                       | (Skipped, w2) \<Rightarrow> (True, w2)
                       | (Done p, w2) \<Rightarrow>
                           if monthlies \<noteq> [] then
                             (case get_playlist_tracks p True w2 of
                                (None, w3) \<Rightarrow> (False, w3)
                              | (Some final_yearly_tracks, w3) \<Rightarrow>
                                  (True, delete_verified_monthlies p final_yearly_tracks
                                           monthlies w3))
                           else (True, w2))))"

fun consolidate_types ::
  "config \<Rightarrow> textenv \<Rightarrow> sources \<Rightarrow> (string \<times> pid) list \<Rightarrow> (nat \<times> ptype \<times> string \<times> pid) list
    \<Rightarrow> nat \<Rightarrow> ptype list \<Rightarrow> world \<Rightarrow> bool \<times> world" where
  "consolidate_types cfg env src existing monthly_playlists year [] w = (True, w)"
| "consolidate_types cfg env src existing monthly_playlists year (t # ts) w =
     (case consolidate_type cfg env src existing monthly_playlists year t w of
        (False, w1) \<Rightarrow> (False, w1)
      | (True, w1) \<Rightarrow> consolidate_types cfg env src existing monthly_playlists year ts w1)"

fun consolidate_years ::
  "config \<Rightarrow> textenv \<Rightarrow> sources \<Rightarrow> (string \<times> pid) list \<Rightarrow> (nat \<times> ptype \<times> string \<times> pid) list
    \<Rightarrow> nat list \<Rightarrow> world \<Rightarrow> bool \<times> world" where
  "consolidate_years cfg env src existing monthly_playlists [] w = (True, w)"
| "consolidate_years cfg env src existing monthly_playlists (year # years) w =
     (case consolidate_types cfg env src existing monthly_playlists year
             (map fst (playlist_types cfg)) w of
        (False, w1) \<Rightarrow> (False, w1)
      | (True, w1) \<Rightarrow> consolidate_years cfg env src existing monthly_playlists years w1)"

text \<open>Lines 232 to 267: the years with something to consolidate.\<close>

definition needs_consolidation ::
  "config \<Rightarrow> sources \<Rightarrow> (string \<times> pid) list \<Rightarrow> (nat \<times> ptype \<times> string \<times> pid) list \<Rightarrow> nat \<Rightarrow> bool" where
  "needs_consolidation cfg src existing monthly_playlists year =
     (year \<in> fst ` set monthly_playlists
      \<or> (case map_of (year_to_tracks_history src) year of
            None \<Rightarrow> False
          | Some h \<Rightarrow>
              list_ex (\<lambda>t. map_of h t \<noteq> None
                          \<and> ((t = Most_played \<and> ENABLE_MOST_PLAYED cfg)
                             \<or> (t = Discovery \<and> ENABLE_DISCOVERY cfg))
                          \<and> map_of existing (yearly_name cfg (year_short year) t) = None)
                [Most_played, Discovery])
      \<or> (case map_of (year_to_tracks src) year of
            None \<Rightarrow> False
          | Some ts \<Rightarrow> ts \<noteq> [] \<and> map_of existing (yearly_finds_name cfg (str_nat year)) = None))"

definition years_to_consolidate ::
  "config \<Rightarrow> sources \<Rightarrow> (string \<times> pid) list \<Rightarrow> (nat \<times> ptype \<times> string \<times> pid) list \<Rightarrow> nat list" where
  "years_to_consolidate cfg src existing monthly_playlists =
     sort (filter (needs_consolidation cfg src existing monthly_playlists)
             (remdups (map fst monthly_playlists @ map fst (year_to_tracks src)
                       @ map fst (year_to_tracks_history src))))"

text \<open>\<open>consolidate_old_monthly_playlists\<close>; \<open>False\<close> when an exception escaped to \<open>handle_errors\<close>.\<close>

definition consolidate_old_monthly_playlists ::
  "config \<Rightarrow> textenv \<Rightarrow> sources \<Rightarrow> ym \<Rightarrow> int \<Rightarrow> (string \<times> pid) list \<Rightarrow> world \<Rightarrow> bool \<times> world" where
  "consolidate_old_monthly_playlists cfg env src now keep_last_n_months existing w =
     (case minus_months now keep_last_n_months of
        None \<Rightarrow> (False, w)
      | Some cutoff_date \<Rightarrow>
          (let monthly_playlists =
                 select_monthly_playlists cfg (strftime_Ym cutoff_date) existing;
               years = years_to_consolidate cfg src existing monthly_playlists
           in if years = [] then (True, w)
              else consolidate_years cfg env src existing monthly_playlists years w))"

section \<open>Cleanup of legacy playlists and of duplicates\<close>

fun contains :: "string \<Rightarrow> string \<Rightarrow> bool" where
  "contains [] p = (p = [])"
| "contains (c # cs) p = (startswith (c # cs) p \<or> contains cs p)"

definition is_automated_monthly_playlist ::
  "string \<Rightarrow> string \<Rightarrow> string list \<Rightarrow> string list \<Rightarrow> bool" where
  "is_automated_monthly_playlist name owner prefixes month_abbrs =
     (if name = [] \<or> \<not> startswith name owner then False
      else
        (let suffix = drop (length owner) name
         in list_ex (\<lambda>prefix. startswith suffix prefix
                \<and> (let rest = drop (length prefix) suffix
                    in list_ex (\<lambda>abbr. startswith rest abbr \<and> length rest > length abbr
                                  \<and> isdigit (drop (length abbr) rest)) month_abbrs))
              prefixes))"

definition is_automated_genre_playlist :: "string \<Rightarrow> string \<Rightarrow> bool" where
  "is_automated_genre_playlist name owner =
     (if name = [] \<or> \<not> startswith name owner then False
      else list_ex (\<lambda>s. contains (drop (length owner) name) s)
             [''HipHop'', ''Hip Hop'', ''Dance'', ''Other'', ''Am''])"

definition legacy_yearly_names :: "config \<Rightarrow> nat \<Rightarrow> string list" where
  "legacy_yearly_names cfg current_year =
     concat (map (\<lambda>year.
        (let ys = (if year \<ge> 2000 then drop 2 (str_nat year) else str_nat year)
         in [yearly_finds_name cfg (str_nat year), yearly_name cfg ys Most_played,
             yearly_name cfg ys Discovery]))
       [2015..<current_year + 2])"

definition legacy_to_delete :: "config \<Rightarrow> nat \<Rightarrow> (string \<times> pid) list \<Rightarrow> (string \<times> pid) list" where
  "legacy_to_delete cfg current_year existing =
     filter (\<lambda>(playlist_name, playlist_id).
        startswith playlist_name (OWNER_NAME cfg)
        \<and> playlist_name \<notin> set (legacy_yearly_names cfg current_year)
        \<and> (is_automated_monthly_playlist playlist_name (OWNER_NAME cfg)
             [PREFIX_MONTHLY cfg, PREFIX_MOST_PLAYED cfg, PREFIX_DISCOVERY cfg] (map snd MONTH_NAMES)
           \<or> is_automated_genre_playlist playlist_name (OWNER_NAME cfg)))
       existing"

text \<open>Lines 532 to 546: every playlist on the list goes to \<open>safe_delete_playlist\<close> with a backup
  and with nothing to verify against.\<close>

fun delete_all_with_backup :: "(string \<times> pid) list \<Rightarrow> world \<Rightarrow> world" where
  "delete_all_with_backup [] w = w"
| "delete_all_with_backup ((playlist_name, playlist_id) # rest) w =
     delete_all_with_backup rest
       (snd (safe_delete_playlist playlist_id playlist_name True None w))"

definition delete_automated_monthly_and_genre_playlists ::
  "config \<Rightarrow> nat \<Rightarrow> (string \<times> pid) list \<Rightarrow> world \<Rightarrow> world" where
  "delete_automated_monthly_and_genre_playlists cfg current_year existing w =
     delete_all_with_backup (legacy_to_delete cfg current_year existing) w"

text \<open>The dictionary \<open>playlist_track_sets\<close>, keyed by the \<open>frozenset\<close> of the tracks, as the list
  of its items in insertion order.\<close>

fun insert_group ::
  "uri list \<Rightarrow> string \<times> pid \<Rightarrow> (uri list \<times> (string \<times> pid) list) list
    \<Rightarrow> (uri list \<times> (string \<times> pid) list) list" where
  "insert_group ts e [] = [(ts, [e])]"
| "insert_group ts e ((k, es) # gs) =
     (if set k = set ts then (k, es @ [e]) # gs else (k, es) # insert_group ts e gs)"

fun build_track_sets ::
  "(string \<times> pid) list \<Rightarrow> (uri list \<times> (string \<times> pid) list) list \<Rightarrow> world
    \<Rightarrow> (uri list \<times> (string \<times> pid) list) list \<times> world" where
  "build_track_sets [] gs w = (gs, w)"
| "build_track_sets ((name, playlist_id) # rest) gs w =
     (case get_playlist_tracks playlist_id False w of
        (None, w1) \<Rightarrow> build_track_sets rest gs w1
      | (Some tracks, w1) \<Rightarrow> build_track_sets rest (insert_group tracks (name, playlist_id) gs) w1)"

fun delete_duplicates :: "pid \<Rightarrow> (string \<times> pid) list \<Rightarrow> world \<Rightarrow> world" where
  "delete_duplicates keep [] w = w"
| "delete_duplicates keep ((dup_name, dup_id) # ds) w =
     delete_duplicates keep ds (snd (safe_delete_playlist dup_id dup_name True (Some keep) w))"

fun process_track_sets :: "(uri list \<times> (string \<times> pid) list) list \<Rightarrow> world \<Rightarrow> world" where
  "process_track_sets [] w = w"
| "process_track_sets ((track_set, pls) # gs) w =
     process_track_sets gs
       (if length pls > 1 \<and> track_set \<noteq> []
        then delete_duplicates (snd (hd (sort_key fst pls))) (tl (sort_key fst pls)) w
        else w)"

definition delete_duplicate_playlists :: "nat \<Rightarrow> (string \<times> pid) list \<Rightarrow> world \<Rightarrow> world" where
  "delete_duplicate_playlists max_playlists existing w =
     (if existing = [] then w
      else if length existing > max_playlists then w
      else (case build_track_sets existing [] w of (gs, w1) \<Rightarrow> process_track_sets gs w1))"

section \<open>Notions used in the statements\<close>

text \<open>The tracks the remote service holds for a playlist.\<close>

definition tracks_at :: "world \<Rightarrow> pid \<Rightarrow> uri list option" where
  "tracks_at w p = map_option pl_tracks (playlists w p)"

fun is_unfollow :: "api_op \<Rightarrow> bool" where
  "is_unfollow (Unfollow_playlist p) = True"
| "is_unfollow c = False"

text \<open>The remote calls made between two states of a run.\<close>

definition calls_since :: "world \<Rightarrow> world \<Rightarrow> api_op list" where
  "calls_since w w' = drop (length (calls w)) (calls w')"

text \<open>A stretch of a run that leaves every playlist's tracks as they are and deletes nothing.\<close>

definition quiet :: "world \<Rightarrow> world \<Rightarrow> bool" where
  "quiet w w' =
     ((\<forall>q. tracks_at w' q = tracks_at w q)
      \<and> take (length (calls w)) (calls w') = calls w
      \<and> \<not> list_ex is_unfollow (calls_since w w'))"

text \<open>The plan as the spec states it: the tracks of \<open>D\<close> that are not in \<open>R\<close>, in the order of \<open>D\<close>.\<close>

definition difference_in_order :: "uri list \<Rightarrow> uri list \<Rightarrow> uri list" where
  "difference_in_order D R = filter (\<lambda>u. u \<notin> set R) D"

text \<open>The track cache holds nothing about a playlist, or the track set the remote service has.\<close>

definition cache_agrees :: "world \<Rightarrow> pid \<Rightarrow> bool" where
  "cache_agrees w p =
     (case tracks_cache w p of
        None \<Rightarrow> True
      | Some c \<Rightarrow> (case playlists w p of None \<Rightarrow> False | Some pl \<Rightarrow> set c = set (pl_tracks pl)))"

section \<open>Example data\<close>

text \<open>
  A fragment of the Unicode tables of Python's \<open>unicodedata\<close>, enough for the examples: the general
  category of the ASCII range, of the C1 controls, of U+00E9, U+0301, U+200D, U+1F600 and of the
  surrogates (any other code point is taken as unassigned); NFC on strings of these code points,
  where the one composition is U+0065 U+0301 to U+00E9; and the white space below U+0100.
\<close>

definition printable_categories :: "string list" where
  "printable_categories =
     [''Zs'', ''Po'', ''Po'', ''Po'', ''Sc'', ''Po'', ''Po'', ''Po'', ''Ps'', ''Pe'', ''Po'', ''Sm'',
      ''Po'', ''Pd'', ''Po'', ''Po'', ''Nd'', ''Nd'', ''Nd'', ''Nd'', ''Nd'', ''Nd'', ''Nd'', ''Nd'',
      ''Nd'', ''Nd'', ''Po'', ''Po'', ''Sm'', ''Sm'', ''Sm'', ''Po'', ''Po'', ''Lu'', ''Lu'', ''Lu'',
      ''Lu'', ''Lu'', ''Lu'', ''Lu'', ''Lu'', ''Lu'', ''Lu'', ''Lu'', ''Lu'', ''Lu'', ''Lu'', ''Lu'',
      ''Lu'', ''Lu'', ''Lu'', ''Lu'', ''Lu'', ''Lu'', ''Lu'', ''Lu'', ''Lu'', ''Lu'', ''Lu'', ''Ps'',
      ''Po'', ''Pe'', ''Sk'', ''Pc'', ''Sk'', ''Ll'', ''Ll'', ''Ll'', ''Ll'', ''Ll'', ''Ll'', ''Ll'',
      ''Ll'', ''Ll'', ''Ll'', ''Ll'', ''Ll'', ''Ll'', ''Ll'', ''Ll'', ''Ll'', ''Ll'', ''Ll'', ''Ll'',
      ''Ll'', ''Ll'', ''Ll'', ''Ll'', ''Ll'', ''Ll'', ''Ll'', ''Ps'', ''Sm'', ''Pe'', ''Sm'']"

definition fragment_category :: "nat \<Rightarrow> string" where
  "fragment_category cp =
     (if cp < 32 \<or> (127 \<le> cp \<and> cp < 160) then ''Cc''
      else if cp < 127 then printable_categories ! (cp - 32)
      else if cp = 0xE9 then ''Ll''
      else if cp = 0x301 then ''Mn''
      else if cp = 0x200D then ''Cf''
      else if cp = 0x1F600 then ''So''
      else if is_surrogate cp then ''Cs''
      else ''Cn'')"

fun fragment_NFC :: "ustr \<Rightarrow> ustr" where
  "fragment_NFC (a # b # cs) =
     (if a = 0x65 \<and> b = 0x301 then 0xE9 # fragment_NFC cs else a # fragment_NFC (b # cs))"
| "fragment_NFC cs = cs"

definition fragment_isspace :: "nat \<Rightarrow> bool" where
  "fragment_isspace cp = (cp \<in> set [9, 10, 11, 12, 13, 28, 29, 30, 31, 32, 0x85, 0xA0])"

text \<open>A stand-in for the base-line helpers: the first line of the current description, or the
  playlist name when that line is blank.\<close>

definition first_line_or_name :: "ustr \<Rightarrow> string \<Rightarrow> ustr" where
  "first_line_or_name current_description playlist_name =
     (let first = takeWhile (\<lambda>cp. cp \<noteq> 10) current_description
      in if list_all fragment_isspace first then map of_char playlist_name else first)"

definition example_env :: textenv where
  "example_env =
     \<lparr>normalize_NFC = fragment_NFC, category = fragment_category, isspace = fragment_isspace,
      simple_description = first_line_or_name\<rparr>"

definition example_playlist :: "string \<Rightarrow> string \<Rightarrow> uri list \<Rightarrow> playlist" where
  "example_playlist name marker ts =
     \<lparr>pl_name = name, pl_description = [], pl_snapshot_id = marker, pl_tracks = ts\<rparr>"

text \<open>The playlists of the examples: the monthly playlists of January to October 2024, two
  user playlists with the same tracks, an empty one, and the yearly playlist of 2023.\<close>

definition example_existing :: "(string \<times> pid) list" where
  "example_existing =
     [(''AJFindsJan24'', 1), (''AJFindsFeb24'', 2), (''AJFindsMar24'', 3), (''AJFindsApr24'', 4),
      (''AJFindsMay24'', 5), (''AJFindsJun24'', 6), (''AJFindsJul24'', 7), (''AJFindsAug24'', 8),
      (''AJFindsSep24'', 9), (''AJFindsOct24'', 10), (''Road trip'', 11), (''Copy of road trip'', 12),
      (''Empty'', 13), (''AJFinds23'', 14)]"

definition example_tracks :: "(pid \<times> uri list) list" where
  "example_tracks =
     [(1, [''t1'', ''t2'']), (2, [''t2'', ''t3'']), (3, [''t3'']), (4, []), (5, [''t4'']),
      (6, [''t5'']), (7, [''t1'', ''t6'']), (8, [''t7'']), (9, [''t8'']), (10, [''t9'']),
      (11, [''r1'', ''r2'']), (12, [''r2'', ''r1'']), (13, []), (14, [''o1''])]"

definition example_world :: world where
  "example_world =
     \<lparr>playlists = (\<lambda>p. case map_of example_tracks p of
                         None \<Rightarrow> None
                       | Some ts \<Rightarrow>
                           Some (example_playlist
                                   (case find (\<lambda>(n, q). q = p) example_existing of
                                      Some (n, q) \<Rightarrow> n | None \<Rightarrow> [])
                                   ''m1'' ts)),
      next_pid = 15,
      accepts_description = (\<lambda>d. True),
      calls = [],
      tracks_cache = (\<lambda>p. None),
      snapshot_cache = (\<lambda>p. None),
      backups = []\<rparr>"

text \<open>The example state after an earlier run has remembered the markers of the yearly playlist of
  2023 and of the empty playlist.\<close>

definition example_world_cached :: world where
  "example_world_cached =
     example_world\<lparr>snapshot_cache := (\<lambda>p. if p = 14 \<or> p = 13 then Some ''m1'' else None)\<rparr>"

text \<open>The track list the description update works on is empty: the list passed is empty, or none
  is passed and the tracks the cache or else the remote service gives are none.\<close>

definition resolves_to_empty :: "world \<Rightarrow> pid \<Rightarrow> uri list option \<Rightarrow> bool" where
  "resolves_to_empty w p track_uris =
     (case track_uris of
        Some ts \<Rightarrow> ts = []
      | None \<Rightarrow>
          (case tracks_cache w p of
             Some c \<Rightarrow> c = []
           | None \<Rightarrow> tracks_at w p = Some []))"

fun is_read :: "api_op \<Rightarrow> bool" where
  "is_read (Get_playlist p) = True"
| "is_read (Get_playlist_items p) = True"
| "is_read c = False"


text \<open>The example state with a track cache that was filled while the yearly playlist of 2023 was
  still empty.\<close>

definition example_world_stale :: world where
  "example_world_stale =
     example_world\<lparr>tracks_cache := (\<lambda>p. if p = 14 then Some [] else None)\<rparr>"
text \<open>A cache file of the examples, and a parser that accepts what ends with a closing brace.\<close>

definition example_files :: files where
  "example_files = (\<lambda>p. if p = ''cache.json'' then Some ''{p13: m1}'' else None)"

definition example_json_load :: "string \<Rightarrow> (string \<times> string) list option" where
  "example_json_load c = (if c \<noteq> [] \<and> last c = CHR ''}'' then Some [(''p13'', c)] else None)"

text \<open>
  The measure of the claim of C6: the total play count of a track for a calendar year, counted
  row by row over the streaming history. A row counts as one play of its track in its year; a
  row whose play time is null records no play.
\<close>

fun plays_in_year :: "(uri \<times> nat \<times> nat option) list \<Rightarrow> nat \<Rightarrow> uri \<Rightarrow> nat" where
  "plays_in_year [] year u = 0"
| "plays_in_year ((track, y, None) # rows) year u = plays_in_year rows year u"
| "plays_in_year ((track, y, Some ms) # rows) year u =
     (if track = u \<and> y = year then Suc (plays_in_year rows year u) else plays_in_year rows year u)"

text \<open>Streaming history of the examples: in 2024 the track \<open>t3\<close> was played twice, \<open>t1\<close> and \<open>t7\<close>
  once each, one row of \<open>t2\<close> has no play time, and \<open>t5\<close> was played in 2023 only.\<close>

definition example_sources :: sources where
  "example_sources =
     \<lparr>year_to_tracks = [], year_to_tracks_history = [],
      history_rows =
        [(''t3'', 2024, Some 1000), (''t1'', 2024, Some 5), (''t5'', 2023, Some 9000),
         (''t3'', 2024, Some 200000), (''t7'', 2024, Some 30), (''t2'', 2024, None)]\<rparr>"

text \<open>The control characters of Unicode (general category \<open>Cc\<close>): U+0000 to U+001F and U+007F to
  U+009F.\<close>

definition is_control :: "nat \<Rightarrow> bool" where
  "is_control cp = (cp < 32 \<or> (127 \<le> cp \<and> cp < 160))"

text \<open>What the statements need of Python's category table: the control characters and the
  surrogates have a category that starts with \<open>C\<close>, and the full stop has not.\<close>

definition unicode_facts :: "textenv \<Rightarrow> bool" where
  "unicode_facts env =
     ((\<forall>cp. is_control cp \<longrightarrow> startswith (category env cp) ''C'')
      \<and> (\<forall>cp. is_surrogate cp \<longrightarrow> startswith (category env cp) ''C'')
      \<and> \<not> startswith (category env 46) ''C'')"

text \<open>The stages of \<open>sanitize_description_for_api\<close>: normalising and stripping, then truncating.\<close>

definition cleaned :: "textenv \<Rightarrow> ustr \<Rightarrow> ustr" where
  "cleaned env d =
     filter (\<lambda>cp. cp \<noteq> 13)
       (filter (\<lambda>cp. \<not> control_class cp) (strip_emoji_and_problematic env (normalize_NFC env d)))"

definition clamped :: "int \<Rightarrow> ustr \<Rightarrow> ustr" where
  "clamped m s =
     (let t = truncate_description m s in if int (length t) > m then py_take m t else t)"




text \<open>A stretch of a run that deletes no playlist and forgets no remote call.\<close>

definition grows :: "world \<Rightarrow> world \<Rightarrow> bool" where
  "grows w w' =
     ((\<forall>q. playlists w q \<noteq> None \<longrightarrow> playlists w' q \<noteq> None)
      \<and> take (length (calls w)) (calls w') = calls w)"

text \<open>A playlist that was on the remote service and is no more; a stretch of a run in which every
  playlist that is left has the tracks it had; and a playlist all of whose tracks another
  playlist holds.\<close>

definition deleted :: "world \<Rightarrow> world \<Rightarrow> pid \<Rightarrow> bool" where
  "deleted w w' q = (tracks_at w q \<noteq> None \<and> tracks_at w' q = None)"

definition tracks_intact :: "world \<Rightarrow> world \<Rightarrow> bool" where
  "tracks_intact w w' = (\<forall>q. tracks_at w' q = None \<or> tracks_at w' q = tracks_at w q)"

definition covered_by :: "world \<Rightarrow> pid \<Rightarrow> pid \<Rightarrow> bool" where
  "covered_by w q k =
     (case tracks_at w q of
        None \<Rightarrow> False
      | Some tq \<Rightarrow> (case tracks_at w k of None \<Rightarrow> False | Some tk \<Rightarrow> set tq \<subseteq> set tk))"

text \<open>A backup of a playlist with the tracks it had has been written.\<close>

definition backed_up :: "world \<Rightarrow> world \<Rightarrow> pid \<Rightarrow> bool" where
  "backed_up w w' q =
     (case tracks_at w q of
        None \<Rightarrow> False
      | Some tq \<Rightarrow> list_ex (\<lambda>b. bk_id b = q \<and> bk_tracks b = remdups tq) (backups w'))"

text \<open>The state once a backup has been written, when one is asked for.\<close>

definition with_backup :: "bool \<Rightarrow> backup \<Rightarrow> world \<Rightarrow> world" where
  "with_backup b bk w = (if b then w\<lparr>backups := backups w @ [bk]\<rparr> else w)"

text \<open>No entry of the track cache is stale.\<close>

definition caches_agree :: "world \<Rightarrow> bool" where
  "caches_agree w = (\<forall>q. cache_agrees w q)"

text \<open>A group of the duplicate detection is sound: it is not empty, its members are playlists
  of \<open>existing\<close>, and the tracks the remote service holds for each member are the group's track
  set.\<close>

definition group_sound ::
  "world \<Rightarrow> (string \<times> pid) list \<Rightarrow> uri list \<times> (string \<times> pid) list \<Rightarrow> bool" where
  "group_sound w existing g =
     (snd g \<noteq> [] \<and> set (snd g) \<subseteq> set existing
      \<and> list_all (\<lambda>(n, p). map_option set (tracks_at w p) = Some (set (fst g))) (snd g))"

text \<open>The playlist of a group that is kept, and the ones handed to deletion.\<close>

definition kept_of :: "(string \<times> pid) list \<Rightarrow> string \<times> pid" where
  "kept_of pls = hd (sort_key fst pls)"

definition duplicates_of :: "(string \<times> pid) list \<Rightarrow> (string \<times> pid) list" where
  "duplicates_of pls = tl (sort_key fst pls)"

text \<open>The example state after the tracks of \<open>Copy of road trip\<close> were read, which fills the
  track cache, and the track \<open>r3\<close> was then added to the playlist.\<close>

definition example_world_grown :: world where
  "example_world_grown =
     snd (api_playlist_add_items 12 [''r3''] (snd (get_playlist_tracks 12 False example_world)))"
section \<open>How the remote calls and the description update change the state\<close>

lemma quiet_refl [simp]: "quiet w w"
  by (simp add: quiet_def calls_since_def)

lemma quiet_trans: "quiet a b \<Longrightarrow> quiet b c \<Longrightarrow> quiet a c"
proof -
  assume ab: "quiet a b" and bc: "quiet b c"
  from ab obtain x where x: "calls b = calls a @ x" "\<not> list_ex is_unfollow x"
    unfolding quiet_def calls_since_def
    by (metis append_take_drop_id)
  from bc obtain y where y: "calls c = calls b @ y" "\<not> list_ex is_unfollow y"
    unfolding quiet_def calls_since_def
    by (metis append_take_drop_id)
  have "calls c = calls a @ (x @ y)" using x y by simp
  moreover have "\<not> list_ex is_unfollow (x @ y)" using x y by (auto simp: list_ex_iff)
  moreover have "\<forall>q. tracks_at c q = tracks_at a q" using ab bc by (simp add: quiet_def)
  ultimately show ?thesis by (simp add: quiet_def calls_since_def)
qed

lemma quietI:
  "(\<And>q. tracks_at w' q = tracks_at w q) \<Longrightarrow> calls w' = calls w @ cs \<Longrightarrow> \<not> list_ex is_unfollow cs
    \<Longrightarrow> quiet w w'"
  by (simp add: quiet_def calls_since_def)

lemma quiet_called: "\<not> is_unfollow c \<Longrightarrow> quiet w (called c w)"
  by (rule quietI[where cs = "[c]"]) (simp_all add: called_def tracks_at_def)

lemma quiet_api_playlist: "quiet w (snd (api_playlist p w))"
  by (simp add: api_playlist_def quiet_called)

lemma quiet_get_playlist_tracks: "quiet w (snd (get_playlist_tracks p f w))"
proof (cases "(if f then None else tracks_cache w p)")
  case (Some ts)
  then show ?thesis by (simp add: get_playlist_tracks_def)
next
  case None
  show ?thesis
  proof (cases "playlists w p")
    case N: None
    with None show ?thesis by (simp add: get_playlist_tracks_def quiet_called)
  next
    case (Some pl)
    with None show ?thesis
      by (auto simp: get_playlist_tracks_def called_def tracks_at_def
          intro!: quietI[where cs = "[Get_playlist_items p]"])
  qed
qed

lemma quiet_api_change_details: "quiet w (snd (api_change_details p d w))"
proof (cases "playlists w p")
  case None
  then show ?thesis by (simp add: api_change_details_def quiet_called)
next
  case (Some pl)
  then show ?thesis
    by (auto simp: api_change_details_def called_def tracks_at_def
        intro!: quietI[where cs = "[User_playlist_change_details p d]"])
qed

lemma quiet_remember_snapshot: "quiet w (remember_snapshot p s w)"
  by (rule quietI[where cs = "[]"]) (simp_all add: remember_snapshot_def tracks_at_def)

lemma quiet_push_description: "quiet w (snd (push_description p s c sp d w))"
proof -
  have 1: "\<And>d. quiet w (snd (api_change_details p d w))" by (rule quiet_api_change_details)
  show ?thesis
  proof (cases "api_change_details p d w")
    case (Pair ok w1)
    with 1[of d] have q: "quiet w w1" by simp
    then have "quiet w (remember_snapshot p s w1)"
      using quiet_remember_snapshot quiet_trans by blast
    with Pair q 1 show ?thesis
      by (simp add: push_description_def quiet_remember_snapshot split: bool.splits)
  qed
qed

lemma quiet_resolve_track_uris: "quiet w (snd (resolve_track_uris p ts w))"
  by (simp add: resolve_track_uris_def quiet_get_playlist_tracks split: option.splits)

lemma quiet_update_description:
  "quiet w (snd (update_playlist_description_with_genres env p ts w))"
proof (cases "api_playlist p w")
  case (Pair r w1)
  then have q1: "quiet w w1" using quiet_api_playlist[of w p] by simp
  show ?thesis
  proof (cases r)
    case None
    with Pair q1 show ?thesis by (simp add: update_playlist_description_with_genres_def)
  next
    case (Some pl)
    show ?thesis
    proof (cases "resolve_track_uris p ts w1")
      case R: (Pair r2 w2)
      then have q2: "quiet w w2" using quiet_resolve_track_uris[of w1 p ts] q1 quiet_trans by fastforce
      have q3: "\<And>s c sp d. quiet w (snd (push_description p s c sp d w2))"
        using quiet_push_description q2 quiet_trans by blast
      from Pair Some R q1 q2 q3 show ?thesis
        by (simp add: update_playlist_description_with_genres_def split: option.splits)
    qed
  qed
qed

lemma concat_chunked: "0 < n \<Longrightarrow> concat (chunked xs n) = xs"
proof (induction xs n rule: chunked.induct)
  case (1 xs n)
  show ?case
  proof (cases "xs = []")
    case True
    then show ?thesis by (simp add: chunked.simps)
  next
    case False
    with 1 have "concat (chunked (drop n xs) n) = drop n xs" by simp
    with False 1(2) show ?thesis by (subst chunked.simps) simp
  qed
qed

lemma api_playlist_add_items_effect:
  assumes "tracks_at w p = Some ts"
  shows "\<exists>w'. api_playlist_add_items p us w = (True, w')
           \<and> tracks_at w' = (tracks_at w)(p \<mapsto> ts @ us)
           \<and> calls w' = calls w @ [Playlist_add_items p us]"
proof -
  from assms obtain pl where pl: "playlists w p = Some pl" "pl_tracks pl = ts"
    by (auto simp: tracks_at_def)
  then show ?thesis
    by (auto simp: api_playlist_add_items_def called_def tracks_at_def fun_eq_iff)
qed

lemma add_chunks_effect:
  "tracks_at w p = Some ts \<Longrightarrow>
     \<exists>w'. add_chunks p cs w = (True, w')
          \<and> tracks_at w' = (tracks_at w)(p \<mapsto> ts @ concat cs)
          \<and> calls w' = calls w @ map (Playlist_add_items p) cs"
proof (induction cs arbitrary: w ts)
  case Nil
  then show ?case by (simp add: fun_upd_idem)
next
  case (Cons c cs)
  from api_playlist_add_items_effect[OF Cons.prems, of c] obtain w1 where
    w1: "api_playlist_add_items p c w = (True, w1)"
        "tracks_at w1 = (tracks_at w)(p \<mapsto> ts @ c)"
        "calls w1 = calls w @ [Playlist_add_items p c]" by blast
  then have "tracks_at w1 p = Some (ts @ c)" by simp
  from Cons.IH[OF this] obtain w' where
    w': "add_chunks p cs w1 = (True, w')"
        "tracks_at w' = (tracks_at w1)(p \<mapsto> (ts @ c) @ concat cs)"
        "calls w' = calls w1 @ map (Playlist_add_items p) cs" by blast
  with w1 show ?case by (auto simp: fun_eq_iff)
qed

lemma add_valid_chunks_effect:
  "tracks_at w p = Some ts \<Longrightarrow>
     \<exists>w' cl. add_valid_chunks p cs w = (True, w')
          \<and> tracks_at w' = (tracks_at w)(p \<mapsto> ts @ filter valid_uri (concat cs))
          \<and> calls w' = calls w @ cl \<and> \<not> list_ex is_unfollow cl"
proof (induction cs arbitrary: w ts)
  case Nil
  then show ?case by (simp add: fun_upd_idem)
next
  case (Cons c cs)
  show ?case
  proof (cases "filter valid_uri c = []")
    case True
    from Cons.IH[OF Cons.prems] True show ?thesis by simp
  next
    case False
    from api_playlist_add_items_effect[OF Cons.prems, of "filter valid_uri c"] obtain w1 where
      w1: "api_playlist_add_items p (filter valid_uri c) w = (True, w1)"
          "tracks_at w1 = (tracks_at w)(p \<mapsto> ts @ filter valid_uri c)"
          "calls w1 = calls w @ [Playlist_add_items p (filter valid_uri c)]" by blast
    then have "tracks_at w1 p = Some (ts @ filter valid_uri c)" by simp
    from Cons.IH[OF this] obtain w' cl where
      w': "add_valid_chunks p cs w1 = (True, w')"
          "tracks_at w' = (tracks_at w1)(p \<mapsto> (ts @ filter valid_uri c) @ filter valid_uri (concat cs))"
          "calls w' = calls w1 @ cl" "\<not> list_ex is_unfollow cl" by blast
    with w1 False show ?thesis by (auto simp: fun_eq_iff)
  qed
qed

lemma get_playlist_tracks_known:
  assumes "playlists w p = Some pl" "cache_agrees w p"
  shows "\<exists>ts w1. get_playlist_tracks p False w = (Some ts, w1) \<and> set ts = set (pl_tracks pl)
           \<and> quiet w w1"
proof -
  have q: "quiet w (snd (get_playlist_tracks p False w))" by (rule quiet_get_playlist_tracks)
  show ?thesis
  proof (cases "tracks_cache w p")
    case None
    with assms q show ?thesis by (auto simp: get_playlist_tracks_def)
  next
    case (Some c)
    with assms q show ?thesis by (auto simp: get_playlist_tracks_def cache_agrees_def)
  qed
qed

lemma difference_in_order_cong: "set R = set R' \<Longrightarrow> difference_in_order D R = difference_in_order D R'"
  by (simp add: difference_in_order_def)

lemma quiet_calls: "quiet w w' \<Longrightarrow> \<exists>cl. calls w' = calls w @ cl \<and> \<not> list_ex is_unfollow cl"
  unfolding quiet_def calls_since_def by (metis append_take_drop_id)

lemma quiet_tracks: "quiet w w' \<Longrightarrow> tracks_at w' = tracks_at w"
  by (auto simp: quiet_def)

lemma update_existing_monthly_effect:
  assumes pl: "playlists w p = Some pl" and ca: "cache_agrees w p"
  shows "\<exists>w'. update_existing_monthly env p D w = (True, w')
           \<and> tracks_at w' = (tracks_at w)(p \<mapsto> pl_tracks pl @ difference_in_order D (pl_tracks pl))
           \<and> \<not> list_ex is_unfollow (calls_since w w')"
proof -
  from get_playlist_tracks_known[OF pl ca] obtain already w1 where
    g: "get_playlist_tracks p False w = (Some already, w1)" "set already = set (pl_tracks pl)"
       "quiet w w1" by blast
  let ?to_add = "monthly_to_add D already"
  have ta: "?to_add = difference_in_order D (pl_tracks pl)"
    using g(2) by (simp add: monthly_to_add_def difference_in_order_def)
  from g(3) have t1: "tracks_at w1 = tracks_at w" by (rule quiet_tracks)
  from quiet_calls[OF g(3)] obtain c1 where c1: "calls w1 = calls w @ c1" "\<not> list_ex is_unfollow c1"
    by blast
  have tp: "tracks_at w1 p = Some (pl_tracks pl)" using t1 pl by (simp add: tracks_at_def)
  show ?thesis
  proof (cases "?to_add = []")
    case True
    let ?w' = "snd (update_playlist_description_with_genres env p (Some D) w1)"
    have q: "quiet w1 ?w'" by (rule quiet_update_description)
    from quiet_calls[OF q] obtain c2 where c2: "calls ?w' = calls w1 @ c2" "\<not> list_ex is_unfollow c2"
      by blast
    have "update_existing_monthly env p D w = (True, ?w')"
      using g(1) True by (simp add: update_existing_monthly_def)
    moreover have "tracks_at ?w' = (tracks_at w)(p \<mapsto> pl_tracks pl @ difference_in_order D (pl_tracks pl))"
      using quiet_tracks[OF q] t1 tp True ta by (simp add: fun_upd_idem)
    moreover have "\<not> list_ex is_unfollow (calls_since w ?w')"
      using c1 c2 by (simp add: calls_since_def)
    ultimately show ?thesis by blast
  next
    case False
    from add_chunks_effect[OF tp, of "chunked ?to_add 50"] obtain w2 where
      w2: "add_chunks p (chunked ?to_add 50) w1 = (True, w2)"
          "tracks_at w2 = (tracks_at w1)(p \<mapsto> pl_tracks pl @ concat (chunked ?to_add 50))"
          "calls w2 = calls w1 @ map (Playlist_add_items p) (chunked ?to_add 50)" by blast
    let ?w3 = "w2\<lparr>tracks_cache := (tracks_cache w2)(p := None)\<rparr>"
    let ?w' = "snd (update_playlist_description_with_genres env p (Some D) ?w3)"
    have q: "quiet ?w3 ?w'" by (rule quiet_update_description)
    from quiet_calls[OF q] obtain c2 where c2: "calls ?w' = calls ?w3 @ c2" "\<not> list_ex is_unfollow c2"
      by blast
    have t3: "tracks_at ?w3 = tracks_at w2" by (simp add: tracks_at_def fun_eq_iff)
    have "update_existing_monthly env p D w = (True, ?w')"
      using g(1) False w2(1) by (simp add: update_existing_monthly_def)
    moreover have "tracks_at ?w' = (tracks_at w)(p \<mapsto> pl_tracks pl @ difference_in_order D (pl_tracks pl))"
      using quiet_tracks[OF q] t3 w2(2) t1 ta by (simp add: concat_chunked)
    moreover have "\<not> list_ex is_unfollow (calls_since w ?w')"
      using c1 c2 w2(3) by (simp add: calls_since_def list_ex_iff) auto
    ultimately show ?thesis by blast
  qed
qed

lemma yearly_to_add_difference:
  "set already = set R \<Longrightarrow> yearly_to_add D already = difference_in_order (filter valid_uri D) R"
  by (induction D) (auto simp: yearly_to_add_def difference_in_order_def)

lemma filter_valid_yearly_to_add [simp]:
  "filter valid_uri (yearly_to_add D already) = yearly_to_add D already"
  by (induction D) (auto simp: yearly_to_add_def)

lemma ensure_yearly_existing_effect:
  assumes ex: "map_of existing name = Some p" and pl: "playlists w p = Some pl"
    and ca: "cache_agrees w p"
  shows "\<exists>w'. ensure_yearly_playlist cfg env existing True name d D w = (Done p, w')
           \<and> tracks_at w' = (tracks_at w)
                (p \<mapsto> pl_tracks pl @ difference_in_order (filter valid_uri D) (pl_tracks pl))
           \<and> \<not> list_ex is_unfollow (calls_since w w')"
proof -
  from get_playlist_tracks_known[OF pl ca] obtain already w1 where
    g: "get_playlist_tracks p False w = (Some already, w1)" "set already = set (pl_tracks pl)"
       "quiet w w1" by blast
  let ?to_add = "yearly_to_add D already"
  have ta: "?to_add = difference_in_order (filter valid_uri D) (pl_tracks pl)"
    using g(2) by (rule yearly_to_add_difference)
  from g(3) have t1: "tracks_at w1 = tracks_at w" by (rule quiet_tracks)
  from quiet_calls[OF g(3)] obtain c1 where c1: "calls w1 = calls w @ c1" "\<not> list_ex is_unfollow c1"
    by blast
  have tp: "tracks_at w1 p = Some (pl_tracks pl)" using t1 pl by (simp add: tracks_at_def)
  show ?thesis
  proof (cases "?to_add = []")
    case True
    let ?w' = "snd (update_playlist_description_with_genres env p None w1)"
    have q: "quiet w1 ?w'" by (rule quiet_update_description)
    from quiet_calls[OF q] obtain c2 where c2: "calls ?w' = calls w1 @ c2" "\<not> list_ex is_unfollow c2"
      by blast
    have "ensure_yearly_playlist cfg env existing True name d D w = (Done p, ?w')"
      using g(1) True ex by (simp add: ensure_yearly_playlist_def)
    moreover have "tracks_at ?w' = (tracks_at w)
        (p \<mapsto> pl_tracks pl @ difference_in_order (filter valid_uri D) (pl_tracks pl))"
      using quiet_tracks[OF q] t1 tp True ta by (simp add: fun_upd_idem)
    moreover have "\<not> list_ex is_unfollow (calls_since w ?w')"
      using c1 c2 by (simp add: calls_since_def)
    ultimately show ?thesis by blast
  next
    case False
    from add_valid_chunks_effect[OF tp, of "chunked ?to_add 50"] obtain w2 cl where
      w2: "add_valid_chunks p (chunked ?to_add 50) w1 = (True, w2)"
          "tracks_at w2 = (tracks_at w1)
             (p \<mapsto> pl_tracks pl @ filter valid_uri (concat (chunked ?to_add 50)))"
          "calls w2 = calls w1 @ cl" "\<not> list_ex is_unfollow cl" by blast
    let ?w' = "snd (update_playlist_description_with_genres env p None w2)"
    have q: "quiet w2 ?w'" by (rule quiet_update_description)
    from quiet_calls[OF q] obtain c2 where c2: "calls ?w' = calls w2 @ c2" "\<not> list_ex is_unfollow c2"
      by blast
    have "ensure_yearly_playlist cfg env existing True name d D w = (Done p, ?w')"
      using g(1) False w2(1) ex by (simp add: ensure_yearly_playlist_def)
    moreover have "tracks_at ?w' = (tracks_at w)
        (p \<mapsto> pl_tracks pl @ difference_in_order (filter valid_uri D) (pl_tracks pl))"
    proof -
      have "filter valid_uri ?to_add = ?to_add" by simp
      then show ?thesis
        using quiet_tracks[OF q] w2(2) t1 ta by (simp add: concat_chunked del: filter_valid_yearly_to_add)
    qed
    moreover have "\<not> list_ex is_unfollow (calls_since w ?w')"
      using c1 c2 w2(3,4) by (simp add: calls_since_def)
    ultimately show ?thesis by blast
  qed
qed

lemma api_user_playlist_create_effect:
  "\<exists>w1. api_user_playlist_create name d w = (next_pid w, w1)
        \<and> tracks_at w1 = (tracks_at w)(next_pid w \<mapsto> [])
        \<and> calls w1 = calls w @ [User_playlist_create name d]"
  by (auto simp: api_user_playlist_create_def called_def tracks_at_def fun_eq_iff)

lemma ensure_yearly_create_effect:
  assumes ex: "map_of existing name = None"
  shows "\<exists>w'. ensure_yearly_playlist cfg env existing b name d D w = (Done (next_pid w), w')
           \<and> tracks_at w' = (tracks_at w)(next_pid w \<mapsto> filter valid_uri D)
           \<and> \<not> list_ex is_unfollow (calls_since w w')"
proof -
  let ?p = "next_pid w"
  from api_user_playlist_create_effect[of name d w] obtain w1 where
    w1: "api_user_playlist_create name d w = (?p, w1)"
        "tracks_at w1 = (tracks_at w)(?p \<mapsto> [])"
        "calls w1 = calls w @ [User_playlist_create name d]" by blast
  then have tp: "tracks_at w1 ?p = Some []" by simp
  let ?valid = "filter valid_uri D"
  from add_chunks_effect[OF tp, of "chunked ?valid 50"] obtain w2 where
    w2: "add_chunks ?p (chunked ?valid 50) w1 = (True, w2)"
        "tracks_at w2 = (tracks_at w1)(?p \<mapsto> [] @ concat (chunked ?valid 50))"
        "calls w2 = calls w1 @ map (Playlist_add_items ?p) (chunked ?valid 50)" by blast
  let ?w' = "snd (update_playlist_description_with_genres env ?p (Some ?valid) w2)"
  have q: "quiet w2 ?w'" by (rule quiet_update_description)
  from quiet_calls[OF q] obtain c2 where c2: "calls ?w' = calls w2 @ c2" "\<not> list_ex is_unfollow c2"
    by blast
  have "ensure_yearly_playlist cfg env existing b name d D w = (Done ?p, ?w')"
    using ex w1(1) w2(1) by (simp add: ensure_yearly_playlist_def)
  moreover have "tracks_at ?w' = (tracks_at w)(?p \<mapsto> ?valid)"
    using quiet_tracks[OF q] w2(2) w1(2) by (simp add: concat_chunked)
  moreover have "\<not> list_ex is_unfollow (calls_since w ?w')"
    using c2 w2(3) w1(3) by (simp add: calls_since_def list_ex_iff) auto
  ultimately show ?thesis by blast
qed

lemma calls_since_called [simp]: "calls_since w (called c w) = [c]"
  by (simp add: calls_since_def called_def)

section \<open>C2: reconciliation only adds\<close>

text \<open>
  C2, as the code has it. For a playlist that exists, with a track cache that holds nothing
  stale about it: the monthly update runs to its end and leaves the playlist with its tracks
  followed by the tracks of \<open>D\<close> that it did not hold, in the order of \<open>D\<close>. The update of a yearly
  playlist during consolidation does the same with the non-empty URIs of \<open>D\<close> when the year
  still has a monthly playlist, and when it has none the playlist is skipped: the state stays
  as it is, without a remote call. Every other playlist keeps its tracks, and no call made on
  the way deletes a playlist.
\<close>

theorem reconciliation_is_additive:
  assumes "playlists w p = Some pl" and "cache_agrees w p"
  shows "(\<exists>w'. update_existing_monthly env p D w = (True, w')
            \<and> tracks_at w' = (tracks_at w)
                 (p \<mapsto> pl_tracks pl @ difference_in_order D (pl_tracks pl))
            \<and> \<not> list_ex is_unfollow (calls_since w w'))
       \<and> (map_of existing name = Some p \<longrightarrow>
           ensure_yearly_playlist cfg env existing False name d D w = (Skipped, w)
           \<and> (\<exists>w'. ensure_yearly_playlist cfg env existing True name d D w = (Done p, w')
                 \<and> tracks_at w' = (tracks_at w)
                      (p \<mapsto> pl_tracks pl @ difference_in_order (filter valid_uri D) (pl_tracks pl))
                 \<and> \<not> list_ex is_unfollow (calls_since w w')))"
proof (intro conjI impI)
  show "\<exists>w'. update_existing_monthly env p D w = (True, w')
            \<and> tracks_at w' = (tracks_at w)
                 (p \<mapsto> pl_tracks pl @ difference_in_order D (pl_tracks pl))
            \<and> \<not> list_ex is_unfollow (calls_since w w')"
    by (rule update_existing_monthly_effect[OF assms])
next
  assume "map_of existing name = Some p"
  then show "ensure_yearly_playlist cfg env existing False name d D w = (Skipped, w)"
    by (simp add: ensure_yearly_playlist_def)
next
  assume "map_of existing name = Some p"
  then show "\<exists>w'. ensure_yearly_playlist cfg env existing True name d D w = (Done p, w')
                 \<and> tracks_at w' = (tracks_at w)
                      (p \<mapsto> pl_tracks pl @ difference_in_order (filter valid_uri D) (pl_tracks pl))
                 \<and> \<not> list_ex is_unfollow (calls_since w w')"
    using assms by (rule ensure_yearly_existing_effect)
qed

theorem reconciliation_is_additive_witness:
  "playlists example_world 14 = Some (example_playlist ''AJFinds23'' ''m1'' [''o1''])
   \<and> cache_agrees example_world 14
   \<and> map_of example_existing ''AJFinds23'' = Some 14
   \<and> (\<exists>w'. update_existing_monthly example_env 14 ['''', ''o1'', ''o2''] example_world = (True, w')
         \<and> tracks_at w' = (tracks_at example_world)(14 \<mapsto> [''o1'', '''', ''o2''])
         \<and> \<not> list_ex is_unfollow (calls_since example_world w'))
   \<and> ensure_yearly_playlist default_config example_env example_existing False ''AJFinds23''
         [] ['''', ''o1'', ''o2''] example_world = (Skipped, example_world)
   \<and> (\<exists>w'. ensure_yearly_playlist default_config example_env example_existing True ''AJFinds23''
               [] ['''', ''o1'', ''o2''] example_world = (Done 14, w')
         \<and> tracks_at w' = (tracks_at example_world)(14 \<mapsto> [''o1'', ''o2''])
         \<and> \<not> list_ex is_unfollow (calls_since example_world w'))"
proof -
  have h1: "playlists example_world 14 = Some (example_playlist ''AJFinds23'' ''m1'' [''o1''])"
    by (simp add: example_world_def example_tracks_def example_existing_def)
  have h2: "cache_agrees example_world 14"
    by (simp add: cache_agrees_def example_world_def)
  have h3: "map_of example_existing ''AJFinds23'' = Some 14"
    by (simp add: example_existing_def)
  from reconciliation_is_additive[OF h1 h2, where env = example_env
      and D = "['''', ''o1'', ''o2'']" and existing = example_existing and name = "''AJFinds23''"
      and cfg = default_config and d = "[]"] h1 h2 h3
  show ?thesis
    by (simp add: difference_in_order_def example_playlist_def valid_uri_def)
qed

text \<open>
  C2 as stated fails. The yearly playlist of 2023 holds \<open>o1\<close> and the desired list is \<open>o1\<close>, \<open>o2\<close>,
  so that \<open>D - R\<close> is \<open>o2\<close>; the year has no monthly playlist left, and the consolidation skips
  the playlist without adding anything. And where the track cache still says that the playlist
  is empty, the plan of the monthly update for the desired list \<open>o1\<close> is \<open>o1\<close>, which the playlist
  holds already, while \<open>D - R\<close> is empty.
\<close>

theorem reconciliation_plan_counterexample:
  "tracks_at example_world 14 = Some [''o1'']
   \<and> map_of example_existing ''AJFinds23'' = Some 14
   \<and> difference_in_order [''o1'', ''o2''] [''o1''] = [''o2'']
   \<and> ensure_yearly_playlist default_config example_env example_existing False ''AJFinds23''
         [] [''o1'', ''o2''] example_world = (Skipped, example_world)
   \<and> tracks_at example_world_stale 14 = Some [''o1'']
   \<and> difference_in_order [''o1''] [''o1''] = []
   \<and> get_playlist_tracks 14 False example_world_stale = (Some [], example_world_stale)
   \<and> monthly_to_add [''o1''] [] = [''o1'']"
proof -
  have e: "map_of example_existing ''AJFinds23'' = Some 14"
    by (simp add: example_existing_def)
  then have s: "ensure_yearly_playlist default_config example_env example_existing False
         ''AJFinds23'' [] [''o1'', ''o2''] example_world = (Skipped, example_world)"
    by (simp add: ensure_yearly_playlist_def)
  have t: "tracks_at example_world 14 = Some [''o1'']"
    by (simp add: tracks_at_def example_world_def example_tracks_def example_playlist_def)
  have ts: "tracks_at example_world_stale 14 = Some [''o1'']"
    by (simp add: tracks_at_def example_world_stale_def example_world_def example_tracks_def
        example_playlist_def)
  have g: "get_playlist_tracks 14 False example_world_stale = (Some [], example_world_stale)"
    by (simp add: get_playlist_tracks_def example_world_stale_def)
  have d: "difference_in_order [''o1'', ''o2''] [''o1''] = [''o2'']"
    "difference_in_order [''o1''] [''o1''] = []" "monthly_to_add [''o1''] [] = [''o1'']"
    by (simp_all add: difference_in_order_def monthly_to_add_def)
  from t e d(1) s ts d(2) g d(3) show ?thesis by (intro conjI)
qed
section \<open>C4: an unchanged playlist is skipped after one read\<close>

text \<open>
  C4, as the code has it. When the marker remembered for a playlist equals its live marker (and
  the marker is not empty), the description update makes one remote call, the read of the
  playlist's description, name and marker, makes no call that changes anything, leaves the
  state as it is, and returns \<open>False\<close>.
\<close>

theorem description_skip_reads_once:
  assumes "playlists w p = Some pl" and "pl_snapshot_id pl \<noteq> []"
    and "snapshot_cache w p = Some (pl_snapshot_id pl)"
  shows "update_playlist_description_with_genres env p track_uris w
           = (False, called (Get_playlist p) w)"
  using assms
  by (simp add: update_playlist_description_with_genres_def api_playlist_def called_def)

theorem description_skip_reads_once_witness:
  "playlists example_world_cached 14 = Some (example_playlist ''AJFinds23'' ''m1'' [''o1''])
   \<and> pl_snapshot_id (example_playlist ''AJFinds23'' ''m1'' [''o1'']) \<noteq> []
   \<and> snapshot_cache example_world_cached 14
        = Some (pl_snapshot_id (example_playlist ''AJFinds23'' ''m1'' [''o1'']))
   \<and> update_playlist_description_with_genres example_env 14 None example_world_cached
        = (False, called (Get_playlist 14) example_world_cached)"
proof -
  have h1: "playlists example_world_cached 14 = Some (example_playlist ''AJFinds23'' ''m1'' [''o1''])"
    by (simp add: example_world_cached_def example_world_def example_tracks_def
        example_existing_def)
  have h2: "pl_snapshot_id (example_playlist ''AJFinds23'' ''m1'' [''o1'']) \<noteq> []"
    by (simp add: example_playlist_def)
  have h3: "snapshot_cache example_world_cached 14
              = Some (pl_snapshot_id (example_playlist ''AJFinds23'' ''m1'' [''o1'']))"
    by (simp add: example_world_cached_def example_playlist_def)
  from description_skip_reads_once[OF h1 h2 h3, of example_env None] h1 h2 h3
  show ?thesis by simp
qed

text \<open>
  The claim as stated fails: with the remembered marker equal to the live one the update has
  made a remote call, the one that fetched the live marker.
\<close>

theorem description_skip_counterexample:
  "snapshot_cache example_world_cached 14 = Some ''m1''
   \<and> map_option pl_snapshot_id (playlists example_world_cached 14) = Some ''m1''
   \<and> calls_since example_world_cached
        (snd (update_playlist_description_with_genres example_env 14 None example_world_cached))
       = [Get_playlist 14]"
  by (simp add: update_playlist_description_with_genres_def api_playlist_def called_def
      example_world_cached_def example_world_def example_tracks_def example_existing_def
      example_playlist_def calls_since_def)

section \<open>C9: an empty playlist gets no description\<close>

text \<open>
  C9. When the track list the description update works on is empty, the update returns
  \<open>False\<close>, leaves the remembered markers and every playlist as they are, and makes no remote
  call but reads. Nothing is assumed about the markers, so this holds when the live marker
  differs from the remembered one, as in the example.
\<close>

theorem empty_playlist_gets_no_description:
  assumes "resolves_to_empty w p track_uris"
  shows "fst (update_playlist_description_with_genres env p track_uris w) = False
         \<and> snapshot_cache (snd (update_playlist_description_with_genres env p track_uris w))
             = snapshot_cache w
         \<and> playlists (snd (update_playlist_description_with_genres env p track_uris w))
             = playlists w
         \<and> list_all is_read
             (calls_since w (snd (update_playlist_description_with_genres env p track_uris w)))"
proof (cases "playlists w p")
  case None
  then show ?thesis
    by (simp add: update_playlist_description_with_genres_def api_playlist_def called_def
        calls_since_def)
next
  case (Some pl)
  show ?thesis
  proof (cases "pl_snapshot_id pl \<noteq> [] \<and> snapshot_cache w p = Some (pl_snapshot_id pl)")
    case True
    with Some show ?thesis
      by (simp add: update_playlist_description_with_genres_def api_playlist_def called_def
          calls_since_def)
  next
    case False
    let ?w1 = "called (Get_playlist p) w"
    have r: "\<exists>w2. resolve_track_uris p track_uris ?w1 = (Some [], w2)
                \<and> snapshot_cache w2 = snapshot_cache w \<and> playlists w2 = playlists w
                \<and> list_all is_read (calls_since w w2)"
    proof (cases track_uris)
      case (Some ts)
      with assms show ?thesis
        by (simp add: resolves_to_empty_def resolve_track_uris_def called_def calls_since_def)
    next
      case N: None
      show ?thesis
      proof (cases "tracks_cache w p")
        case (Some c)
        with N assms show ?thesis
          by (simp add: resolves_to_empty_def resolve_track_uris_def get_playlist_tracks_def
              called_def calls_since_def)
      next
        case None
        with N assms \<open>playlists w p = Some pl\<close> show ?thesis
          by (simp add: resolves_to_empty_def resolve_track_uris_def get_playlist_tracks_def
              called_def calls_since_def tracks_at_def)
      qed
    qed
    then obtain w2 where w2: "resolve_track_uris p track_uris ?w1 = (Some [], w2)"
      "snapshot_cache w2 = snapshot_cache w" "playlists w2 = playlists w"
      "list_all is_read (calls_since w w2)" by blast
    have sc: "snapshot_cache ?w1 = snapshot_cache w" by (simp add: called_def)
    have "update_playlist_description_with_genres env p track_uris w = (False, w2)"
      using Some False w2(1) sc
      by (auto simp: update_playlist_description_with_genres_def api_playlist_def)
    with w2 show ?thesis by simp
  qed
qed

theorem empty_playlist_gets_no_description_witness:
  "resolves_to_empty example_world 13 None
   \<and> snapshot_cache example_world 13 \<noteq> map_option pl_snapshot_id (playlists example_world 13)
   \<and> fst (update_playlist_description_with_genres example_env 13 None example_world) = False
   \<and> snapshot_cache (snd (update_playlist_description_with_genres example_env 13 None example_world))
       = snapshot_cache example_world
   \<and> playlists (snd (update_playlist_description_with_genres example_env 13 None example_world))
       = playlists example_world
   \<and> list_all is_read (calls_since example_world
        (snd (update_playlist_description_with_genres example_env 13 None example_world)))"
proof -
  have h: "resolves_to_empty example_world 13 None"
    by (simp add: resolves_to_empty_def example_world_def tracks_at_def example_tracks_def
        example_playlist_def)
  have m: "snapshot_cache example_world 13 \<noteq> map_option pl_snapshot_id (playlists example_world 13)"
    by (simp add: example_world_def example_tracks_def)
  from empty_playlist_gets_no_description[OF h, of example_env] h m show ?thesis by simp
qed

section \<open>C8: the snapshot cache is rewritten in place\<close>

lemma foldl_write_chunks:
  "fs p = Some c \<Longrightarrow> foldl file_step fs (map (Write_chunk p) cs) p = Some (c @ concat cs)"
  by (induction cs arbitrary: fs c) simp_all

lemma crash_during_save:
  "crash_after (Suc j) (save_snapshot_cache path chunks) fs path = Some (concat (take j chunks))"
proof -
  have t: "take j (map (Write_chunk path) chunks @ [Close_file path])
        = map (Write_chunk path) (take j chunks) @ take (j - length chunks) [Close_file path]"
    by (simp add: take_map)
  have c: "\<And>f. foldl file_step f (take (j - length chunks) [Close_file path]) = f"
    by (cases "j - length chunks") simp_all
  show ?thesis
    by (simp add: crash_after_def save_snapshot_cache_def t c foldl_write_chunks del: take_append)
qed

text \<open>
  C8, as the code has it. \<open>_save_snapshot_cache\<close> opens the cache file itself for writing and
  writes into it: there is no temporary file and no replace. Stopped before its first file
  operation the write leaves the file as it was; stopped anywhere later it leaves the pieces
  written so far, and the previous content is gone. A file left in a state the parser rejects
  is read back by \<open>_load_snapshot_cache\<close> as the empty cache.
\<close>

theorem cache_is_rewritten_in_place:
  "crash_after k (save_snapshot_cache path chunks) fs path
     = (if k = 0 then fs path else Some (concat (take (k - 1) chunks)))
   \<and> (0 < k \<and> json_load (concat (take (k - 1) chunks)) = None \<longrightarrow>
        load_snapshot_cache json_load path (crash_after k (save_snapshot_cache path chunks) fs) = [])"
proof (cases k)
  case 0
  then show ?thesis by (simp add: crash_after_def)
next
  case (Suc j)
  then show ?thesis by (simp add: crash_during_save load_snapshot_cache_def)
qed

theorem cache_is_rewritten_in_place_witness:
  "crash_after 2 (save_snapshot_cache ''cache.json'' [''{p13: '', ''m2}'']) example_files ''cache.json''
     = Some ''{p13: ''
   \<and> (0::nat) < 2 \<and> example_json_load ''{p13: '' = None
   \<and> load_snapshot_cache example_json_load ''cache.json''
        (crash_after 2 (save_snapshot_cache ''cache.json'' [''{p13: '', ''m2}'']) example_files) = []"
  using cache_is_rewritten_in_place[of 2 "''cache.json''" "[''{p13: '', ''m2}'']" example_files
      example_json_load]
  by (simp add: example_json_load_def)

text \<open>
  The claim as stated fails: stopped right after the file has been opened for writing, the
  write leaves an empty file, which is neither the previous cache nor the new one.
\<close>

theorem atomic_cache_write_counterexample:
  "example_files ''cache.json'' = Some ''{p13: m1}''
   \<and> concat [''{p13: '', ''m2}''] = ''{p13: m2}''
   \<and> crash_after 1 (save_snapshot_cache ''cache.json'' [''{p13: '', ''m2}'']) example_files ''cache.json''
       = Some ''''"
  by (simp add: crash_after_def save_snapshot_cache_def example_files_def)

text \<open>The write the spec describes would keep the promise: whenever it is stopped, the cache
  file holds the previous content or the whole new one.\<close>

lemma foldl_write_other:
  "tmp \<noteq> path \<Longrightarrow> foldl file_step f (map (Write_chunk tmp) cs) path = f path"
proof (induction cs arbitrary: f)
  case Nil
  then show ?case by simp
next
  case (Cons c cs)
  have "file_step f (Write_chunk tmp c) path = f path"
    using Cons.prems by (cases "f tmp") simp_all
  with Cons show ?case by simp
qed

lemma temp_then_replace_keeps_old_or_new:
  assumes "tmp \<noteq> path"
  shows "crash_after k (write_temp_then_replace path tmp chunks) fs path = fs path
         \<or> crash_after k (write_temp_then_replace path tmp chunks) fs path = Some (concat chunks)"
proof -
  let ?ws = "map (Write_chunk tmp) chunks"
  let ?f = "foldl file_step (fs(tmp \<mapsto> [])) ?ws"
  have f: "?f tmp = Some (concat chunks)"
    using foldl_write_chunks[of "fs(tmp \<mapsto> [])" tmp "[]" chunks] by simp
  have f2: "?f path = fs path"
    using foldl_write_other[OF assms, of "fs(tmp \<mapsto> [])" chunks] assms by simp
  consider (zero) "k = 0" | (writing) j where "k = Suc j" "j \<le> length chunks"
    | (closed) "k = length chunks + 2" | (replaced) "k \<ge> length chunks + 3"
    by (cases k) (auto, arith)
  then show ?thesis
  proof cases
    case zero
    then show ?thesis by (simp add: crash_after_def)
  next
    case writing
    then have "take k (write_temp_then_replace path tmp chunks)
        = Open_for_writing tmp # map (Write_chunk tmp) (take j chunks)"
      by (simp add: write_temp_then_replace_def take_map)
    then show ?thesis
      using foldl_write_other[OF assms, of "fs(tmp \<mapsto> [])" "take j chunks"] assms
      by (simp add: crash_after_def)
  next
    case closed
    then have "take k (write_temp_then_replace path tmp chunks)
        = Open_for_writing tmp # ?ws @ [Close_file tmp]"
      by (simp add: write_temp_then_replace_def)
    then show ?thesis using f2 by (simp add: crash_after_def)
  next
    case replaced
    then have "take k (write_temp_then_replace path tmp chunks)
        = Open_for_writing tmp # ?ws @ [Close_file tmp, Replace_file tmp path]"
      by (simp add: write_temp_then_replace_def)
    then show ?thesis using f assms by (simp add: crash_after_def)
  qed
qed

section \<open>C6: the yearly "most played" list is re-sorted stably\<close>

lemma pair_key_le: "((a::nat, 0::nat) \<le> (b, 0)) = (a \<le> b)"
  by (auto simp: less_eq_prod_def)

lemma sort_reverse_set [simp]: "set (sort_reverse k xs) = set xs"
  by (simp add: sort_reverse_def)

lemma sort_reverse_length [simp]: "length (sort_reverse k xs) = length xs"
  by (simp add: sort_reverse_def)

lemma sort_reverse_descending: "sorted_wrt (\<lambda>a b. k b \<le> k a) (sort_reverse k xs)"
proof -
  have "sorted (map k (sort_key k (rev xs)))" by simp
  then have "sorted_wrt (\<lambda>a b. k a \<le> k b) (sort_key k (rev xs))"
    by (simp add: sorted_map)
  then show ?thesis
    by (simp add: sort_reverse_def sorted_wrt_rev)
qed

lemma sort_reverse_stable:
  "filter (\<lambda>y. k y = v) (sort_reverse k xs) = filter (\<lambda>y. k y = v) xs"
  by (simp add: sort_reverse_def sort_key_stable flip: rev_filter)

lemma descending_suffix:
  "sorted_wrt (\<lambda>a b. (c b :: nat) \<le> c a) r
    \<Longrightarrow> r = filter (\<lambda>u. 0 < c u) r @ filter (\<lambda>u. c u = 0) r"
proof (induction r)
  case Nil
  then show ?case by simp
next
  case (Cons a r)
  then have IH: "r = filter (\<lambda>u. 0 < c u) r @ filter (\<lambda>u. c u = 0) r" by simp
  show ?case
  proof (cases "c a = 0")
    case True
    with Cons.prems have "\<forall>u\<in>set r. c u = 0" by auto
    then have "filter (\<lambda>u. 0 < c u) r = []" "filter (\<lambda>u. c u = 0) r = r"
      by (simp_all add: filter_empty_conv filter_id_conv)
    with True show ?thesis by simp
  next
    case False
    with IH show ?thesis by simp
  qed
qed

lemma play_count_is_plays_in_year: "play_count rows year u = plays_in_year rows year u"
proof (induction rows year u rule: plays_in_year.induct)
  case (1 year u)
  show ?case by (simp add: play_count_def)
next
  case (2 track y rows year u)
  then show ?case by (simp add: play_count_def)
next
  case (3 track y ms rows year u)
  then show ?case by (simp add: play_count_def)
qed

text \<open>
  C6. The "most played" tracks gathered from the monthly playlists of a year come out of the
  re-sort as a rearrangement of the same tracks (none dropped, none added), in descending
  order of the plays that the streaming history counts for them in that year; the tracks of
  any one count keep the order in which they were met; and the tracks with no play in the
  history of that year come after all the others.
\<close>

theorem most_played_resorted_stably:
  "mset (resort_by_play_count src year Most_played True xs) = mset xs
   \<and> sorted_wrt (\<lambda>a b. plays_in_year (history_rows src) year b
                         \<le> plays_in_year (history_rows src) year a)
        (resort_by_play_count src year Most_played True xs)
   \<and> filter (\<lambda>u. plays_in_year (history_rows src) year u = n)
        (resort_by_play_count src year Most_played True xs)
       = filter (\<lambda>u. plays_in_year (history_rows src) year u = n) xs
   \<and> resort_by_play_count src year Most_played True xs
       = filter (\<lambda>u. 0 < plays_in_year (history_rows src) year u)
           (resort_by_play_count src year Most_played True xs)
         @ filter (\<lambda>u. plays_in_year (history_rows src) year u = 0)
           (resort_by_play_count src year Most_played True xs)"
proof -
  let ?c = "plays_in_year (history_rows src) year"
  let ?k = "\<lambda>u. (play_count (history_rows src) year u, 0::nat)"
  let ?r = "resort_by_play_count src year Most_played True xs"
  have kc: "?k u = (?c u, 0)" for u by (simp add: play_count_is_plays_in_year)
  have desc: "sorted_wrt (\<lambda>a b. ?c b \<le> ?c a) ?r \<and> filter (\<lambda>u. ?c u = n) ?r = filter (\<lambda>u. ?c u = n) xs
              \<and> mset ?r = mset xs"
  proof (cases "?r = sort_reverse ?k xs")
    case True
    have "sorted_wrt (\<lambda>a b. ?k b \<le> ?k a) (sort_reverse ?k xs)" by (rule sort_reverse_descending)
    then have "sorted_wrt (\<lambda>a b. ?c b \<le> ?c a) (sort_reverse ?k xs)"
      by (rule sorted_wrt_mono_rel[rotated]) (auto simp: kc pair_key_le)
    moreover have "filter (\<lambda>u. ?k u = (n, 0)) (sort_reverse ?k xs) = filter (\<lambda>u. ?k u = (n, 0)) xs"
      by (rule sort_reverse_stable)
    then have "filter (\<lambda>u. ?c u = n) (sort_reverse ?k xs) = filter (\<lambda>u. ?c u = n) xs"
      by (simp add: kc)
    moreover have "mset (sort_reverse ?k xs) = mset xs" by (simp add: sort_reverse_def)
    ultimately show ?thesis using True by simp
  next
    case False
    then have same: "?r = xs" by (simp add: resort_by_play_count_def split: if_splits)
    from False have "xs = [] \<or> history_rows src = []
        \<or> filter (\<lambda>(u, y, ms). y = year) (history_rows src) = []"
      by (auto simp: resort_by_play_count_def split: if_splits)
    then have "xs = [] \<or> (\<forall>u. play_count (history_rows src) year u = 0)"
    proof (elim disjE)
      assume "filter (\<lambda>(u, y, ms). y = year) (history_rows src) = []"
      then have "\<forall>u. filter (\<lambda>(u', y, ms). u' = u \<and> y = year \<and> ms \<noteq> None) (history_rows src) = []"
        by (auto simp: filter_empty_conv)
      then show ?thesis by (simp add: play_count_def)
    qed (simp_all add: play_count_def)
    then have zero: "xs = [] \<or> (\<forall>u. ?c u = 0)" by (simp add: play_count_is_plays_in_year)
    then have "sorted_wrt (\<lambda>a b. ?c b \<le> ?c a) xs"
      by (auto simp: sorted_wrt_iff_nth_less)
    with same show ?thesis by simp
  qed
  then have "?r = filter (\<lambda>u. 0 < ?c u) ?r @ filter (\<lambda>u. ?c u = 0) ?r"
    using descending_suffix[of ?c ?r] by blast
  with desc show ?thesis by blast
qed

text \<open>An example: \<open>t3\<close> with two plays comes first, \<open>t1\<close> and \<open>t7\<close> with one play each keep their
  order, and \<open>t2\<close> and \<open>t6\<close>, which have no counted play in 2024, come last in their order.\<close>

lemma most_played_resort_example:
  "resort_by_play_count example_sources 2024 Most_played True [''t1'', ''t2'', ''t3'', ''t6'', ''t7'']
     = [''t3'', ''t1'', ''t7'', ''t2'', ''t6'']"
  by (simp add: resort_by_play_count_def example_sources_def sort_reverse_def play_count_def
      less_eq_prod_def)

section \<open>C5: sanitised descriptions\<close>

lemma py_take_subset: "set (py_take k xs) \<subseteq> set xs"
  by (auto simp: py_take_def dest: in_set_takeD)

lemma py_take_length: "0 \<le> k \<Longrightarrow> int (length (py_take k xs)) \<le> k"
  by (simp add: py_take_def)

lemma split_lines_no_newline: "10 \<notin> set s \<Longrightarrow> split_lines s = [s]"
  by (induction s) auto

lemma truncate_no_newline:
  "10 \<notin> set s \<Longrightarrow>
     truncate_description m s = (if int (length s) > m then py_take (m - 3) s @ dots else s)"
  by (simp add: truncate_description_def split_lines_no_newline Let_def)

lemma truncate_short: "int (length s) \<le> m \<Longrightarrow> truncate_description m s = s"
  by (simp add: truncate_description_def)

lemma encode_replace_id: "\<forall>cp\<in>set s. \<not> is_surrogate cp \<Longrightarrow> encode_replace s = s"
  by (induction s) (simp_all add: encode_replace_def)

lemma encode_replace_no_surrogate: "cp \<in> set (encode_replace s) \<Longrightarrow> \<not> is_surrogate cp"
  by (auto simp: encode_replace_def is_surrogate_def)

lemma encode_replace_length [simp]: "length (encode_replace s) = length s"
  by (simp add: encode_replace_def)

lemma sanitize_unfold:
  "sanitize_description_for_api env (Some d) m = encode_replace (clamped m (cleaned env d))"
  by (simp add: sanitize_description_for_api_def cleaned_def clamped_def Let_def)

lemma cleaned_chars:
  "cp \<in> set (cleaned env d) \<Longrightarrow> \<not> problematic env cp \<and> \<not> control_class cp \<and> cp \<noteq> 13"
  by (auto simp: cleaned_def strip_emoji_and_problematic_def)

lemma problematic_if_C: "startswith (category env cp) ''C'' \<Longrightarrow> problematic env cp"
  by (simp add: problematic_def Let_def)

lemma cleaned_facts:
  assumes "unicode_facts env" "cp \<in> set (cleaned env d)"
  shows "\<not> is_control cp \<and> \<not> is_surrogate cp \<and> cp \<noteq> 10"
proof -
  from assms(2) have np: "\<not> problematic env cp" by (simp add: cleaned_chars)
  then have "\<not> startswith (category env cp) ''C''" using problematic_if_C by blast
  with assms(1) have "\<not> is_control cp" "\<not> is_surrogate cp"
    by (auto simp: unicode_facts_def)
  moreover have "is_control 10" by (simp add: is_control_def)
  ultimately show ?thesis by auto
qed

lemma dot_facts:
  assumes "unicode_facts env"
  shows "\<not> problematic env 46 \<and> \<not> control_class 46 \<and> \<not> is_control 46 \<and> \<not> is_surrogate 46"
proof -
  from assms have "\<not> startswith (category env 46) ''C''" by (simp add: unicode_facts_def)
  then have "\<not> problematic env 46" by (simp add: problematic_def Let_def)
  then show ?thesis by (simp add: control_class_def is_control_def is_surrogate_def)
qed

lemma clamped_chars:
  assumes "unicode_facts env"
  shows "set (clamped m (cleaned env d)) \<subseteq> set (cleaned env d) \<union> {46}"
proof -
  have nl: "10 \<notin> set (cleaned env d)" using cleaned_facts[OF assms] by blast
  have "set (truncate_description m (cleaned env d)) \<subseteq> set (cleaned env d) \<union> {46}"
    using py_take_subset[of "m - 3" "cleaned env d"]
    by (auto simp: truncate_no_newline[OF nl] dots_def)
  moreover have "set (clamped m (cleaned env d)) \<subseteq> set (truncate_description m (cleaned env d))"
    using py_take_subset[of m "truncate_description m (cleaned env d)"]
    by (auto simp: clamped_def Let_def)
  ultimately show ?thesis by blast
qed

lemma clamped_length: "0 \<le> m \<Longrightarrow> int (length (clamped m s)) \<le> m"
  using py_take_length[of m "truncate_description m s"]
  by (auto simp: clamped_def Let_def)

lemma clamped_short: "int (length s) \<le> m \<Longrightarrow> clamped m s = s"
  by (simp add: clamped_def truncate_short)

lemma cleaned_fixed:
  assumes "normalize_NFC env s = s"
    and "\<forall>cp\<in>set s. \<not> problematic env cp \<and> \<not> control_class cp \<and> cp \<noteq> 13"
  shows "cleaned env s = s"
proof -
  have 1: "strip_emoji_and_problematic env s = s"
    using assms(2) by (simp add: strip_emoji_and_problematic_def filter_id_conv)
  have 2: "filter (\<lambda>cp. \<not> control_class cp) s = s"
    using assms(2) by (simp add: filter_id_conv)
  have 3: "filter (\<lambda>cp. cp \<noteq> 13) s = s"
    using assms(2) by (simp add: filter_id_conv)
  show ?thesis
    unfolding cleaned_def assms(1) 1 2 3 ..
qed

lemma clamped_cleaned_chars:
  assumes "unicode_facts env" and "cp \<in> set (clamped m (cleaned env d))"
  shows "\<not> problematic env cp \<and> \<not> control_class cp \<and> cp \<noteq> 13
           \<and> \<not> is_control cp \<and> \<not> is_surrogate cp"
proof -
  from clamped_chars[OF assms(1), of m d] assms(2)
  have "cp \<in> set (cleaned env d) \<or> cp = 46" by blast
  then show ?thesis
  proof
    assume "cp \<in> set (cleaned env d)"
    then show ?thesis
      using cleaned_chars[of cp env d] cleaned_facts[OF assms(1), of cp d] by blast
  next
    assume "cp = 46"
    then show ?thesis using dot_facts[OF assms(1)] by simp
  qed
qed

text \<open>
  The bounds of the sanitised description. For a maximum length that is not negative and a
  category table in which control characters and surrogates have a category starting with \<open>C\<close>
  and the full stop has not, the sanitised description is at most as long as the maximum, holds
  no control character and no code point that UTF-8 cannot encode, and is returned unchanged by
  a second pass whenever it is still in normal form NFC.
\<close>

theorem sanitized_description_is_bounded_and_clean:
  assumes "0 \<le> max_length" and "unicode_facts env"
  shows "int (length (sanitize_description_for_api env (Some d) max_length)) \<le> max_length
         \<and> (\<forall>cp\<in>set (sanitize_description_for_api env (Some d) max_length).
               \<not> is_control cp \<and> \<not> is_surrogate cp)
         \<and> (normalize_NFC env (sanitize_description_for_api env (Some d) max_length)
               = sanitize_description_for_api env (Some d) max_length
             \<longrightarrow> sanitize_description_for_api env
                   (Some (sanitize_description_for_api env (Some d) max_length)) max_length
                 = sanitize_description_for_api env (Some d) max_length)"
proof -
  define c where "c = clamped max_length (cleaned env d)"
  define out where "out = sanitize_description_for_api env (Some d) max_length"
  have chars: "\<forall>cp\<in>set c. \<not> problematic env cp \<and> \<not> control_class cp \<and> cp \<noteq> 13
                 \<and> \<not> is_control cp \<and> \<not> is_surrogate cp"
    unfolding c_def using clamped_cleaned_chars[OF assms(2)] by blast
  then have "encode_replace c = c" by (intro encode_replace_id) blast
  then have oc: "out = c" by (simp add: out_def c_def sanitize_unfold)
  have len: "int (length out) \<le> max_length"
    unfolding oc c_def by (rule clamped_length[OF assms(1)])
  have clean: "\<forall>cp\<in>set out. \<not> is_control cp \<and> \<not> is_surrogate cp"
    unfolding oc using chars by blast
  have again: "sanitize_description_for_api env (Some out) max_length = out"
    if nfc: "normalize_NFC env out = out"
  proof -
    have 1: "cleaned env out = out"
      by (rule cleaned_fixed[OF nfc]) (use chars oc in blast)
    have 2: "clamped max_length out = out"
      using len by (rule clamped_short)
    have 3: "encode_replace out = out"
      by (rule encode_replace_id) (use clean in blast)
    show ?thesis unfolding sanitize_unfold 1 2 3 ..
  qed
  from len clean again show ?thesis unfolding out_def by blast
qed

lemma example_env_facts: "unicode_facts example_env"
  by (simp add: unicode_facts_def example_env_def fragment_category_def is_control_def
      startswith_def is_surrogate_def printable_categories_def)

theorem sanitized_description_witness:
  "(0::int) \<le> 300 \<and> unicode_facts example_env
   \<and> sanitize_description_for_api example_env
        (Some [0x4C, 0x69, 0x6B, 0x65, 0x64, 0x0A, 0x1F600, 0x07, 0x21, 0xD800]) 300
       = [0x4C, 0x69, 0x6B, 0x65, 0x64, 0x21]
   \<and> int (length (sanitize_description_for_api example_env
        (Some [0x4C, 0x69, 0x6B, 0x65, 0x64, 0x0A, 0x1F600, 0x07, 0x21, 0xD800]) 300)) \<le> 300
   \<and> list_all (\<lambda>cp. \<not> is_control cp \<and> \<not> is_surrogate cp)
        (sanitize_description_for_api example_env
          (Some [0x4C, 0x69, 0x6B, 0x65, 0x64, 0x0A, 0x1F600, 0x07, 0x21, 0xD800]) 300)
   \<and> sanitize_description_for_api example_env (Some [0x4C, 0x69, 0x6B, 0x65, 0x64, 0x21]) 300
       = [0x4C, 0x69, 0x6B, 0x65, 0x64, 0x21]"
proof -
  have v: "sanitize_description_for_api example_env
        (Some [0x4C, 0x69, 0x6B, 0x65, 0x64, 0x0A, 0x1F600, 0x07, 0x21, 0xD800]) 300
       = [0x4C, 0x69, 0x6B, 0x65, 0x64, 0x21]"
    by (simp add: sanitize_description_for_api_def example_env_def fragment_category_def
        strip_emoji_and_problematic_def problematic_def control_class_def startswith_def
        is_surrogate_def truncate_description_def encode_replace_def printable_categories_def)
  have n: "normalize_NFC example_env [0x4C, 0x69, 0x6B, 0x65, 0x64, 0x21]
             = [0x4C, 0x69, 0x6B, 0x65, 0x64, 0x21]"
    by (simp add: example_env_def)
  from sanitized_description_is_bounded_and_clean[of 300 example_env
      "[0x4C, 0x69, 0x6B, 0x65, 0x64, 0x0A, 0x1F600, 0x07, 0x21, 0xD800]"] example_env_facts v n
  show ?thesis by (simp add: list_all_iff)
qed

text \<open>
  C5 fails on the code at the description U+0065 U+200D U+0301, a letter, a zero-width joiner
  and a combining acute accent. The function normalises to NFC before it strips characters:
  the first pass finds nothing to compose and strips the joiner, which leaves the letter next
  to the accent, a string that is not in normal form NFC; the second pass composes the two
  into U+00E9. The first output is not a fixed point of the function.
\<close>

theorem sanitize_second_pass_differs:
  "sanitize_description_for_api example_env (Some [0x65, 0x200D, 0x301]) 300 = [0x65, 0x301]
   \<and> normalize_NFC example_env [0x65, 0x301] = [0xE9]
   \<and> sanitize_description_for_api example_env (Some [0x65, 0x301]) 300 = [0xE9]"
  by (simp add: sanitize_description_for_api_def example_env_def fragment_category_def
      strip_emoji_and_problematic_def problematic_def control_class_def startswith_def
      is_surrogate_def truncate_description_def encode_replace_def printable_categories_def)

text \<open>A description over the maximum length is cut to the maximum, ending in three dots.\<close>

lemma sanitize_long_example:
  "sanitize_description_for_api example_env (Some (replicate 400 0x61)) 300
     = replicate 297 0x61 @ [0x2E, 0x2E, 0x2E]"
proof -
  have c: "cleaned example_env (replicate 400 0x61) = replicate 400 0x61"
  proof -
    have "fragment_NFC (replicate n 0x61) = replicate n 0x61" for n
    proof (induction n rule: less_induct)
      case (less n)
      show ?case
      proof (cases n)
        case 0 then show ?thesis by simp
      next
        case (Suc m)
        show ?thesis
        proof (cases m)
          case 0 with Suc show ?thesis by simp
        next
          case (Suc k)
          with \<open>n = Suc m\<close> less[of m] show ?thesis by simp
        qed
      qed
    qed
    then show ?thesis
      by (simp add: cleaned_def example_env_def strip_emoji_and_problematic_def problematic_def
          fragment_category_def control_class_def startswith_def printable_categories_def)
  qed
  have "10 \<notin> set (replicate 400 (0x61::nat))" by simp
  then have t: "truncate_description 300 (replicate 400 0x61) = replicate 297 0x61 @ dots"
    by (simp add: truncate_no_newline py_take_def)
  show ?thesis
    by (simp add: sanitize_unfold c clamped_def t dots_def encode_replace_def is_surrogate_def)
qed

section \<open>C7: the monthly update covers the last months\<close>

lemma grows_refl [simp]: "grows w w"
  by (simp add: grows_def)




















section \<open>How deletions change the state\<close>


lemma get_playlist_tracks_fresh:
  "get_playlist_tracks p True w =
     (case playlists w p of
        None \<Rightarrow> (None, called (Get_playlist_items p) w)
      | Some pl \<Rightarrow> (Some (remdups (pl_tracks pl)),
          called (Get_playlist_items p)
            (w\<lparr>tracks_cache := (tracks_cache w)(p \<mapsto> remdups (pl_tracks pl))\<rparr>)))"
  by (simp add: get_playlist_tracks_def)

lemma get_playlist_tracks_same:
  "tracks_at (snd (get_playlist_tracks p f w)) = tracks_at w
   \<and> backups (snd (get_playlist_tracks p f w)) = backups w"
proof (cases "(if f then None else tracks_cache w p)")
  case (Some c)
  then show ?thesis by (simp add: get_playlist_tracks_def)
next
  case None
  then show ?thesis
    by (cases "playlists w p")
       (simp_all add: get_playlist_tracks_def called_def tracks_at_def fun_eq_iff)
qed

lemma get_playlist_tracks_fresh_result:
  "fst (get_playlist_tracks p True w) = map_option remdups (tracks_at w p)"
  by (cases "playlists w p") (simp_all add: get_playlist_tracks_fresh tracks_at_def)

lemma api_unfollow_effect:
  "tracks_at w p \<noteq> None \<Longrightarrow>
     fst (api_unfollow p w) = True
     \<and> tracks_at (snd (api_unfollow p w)) = (tracks_at w)(p := None)
     \<and> backups (snd (api_unfollow p w)) = backups w"
  by (cases "playlists w p")
     (simp_all add: api_unfollow_def called_def tracks_at_def fun_eq_iff)

text \<open>What \<open>safe_delete_playlist\<close> does, case by case.\<close>

lemma safe_delete_missing:
  assumes "tracks_at w p = None"
  shows "fst (fst (safe_delete_playlist p n b v w)) = False
         \<and> tracks_at (snd (safe_delete_playlist p n b v w)) = tracks_at w
         \<and> backups (snd (safe_delete_playlist p n b v w)) = backups w"
proof -
  from assms have "playlists w p = None" by (simp add: tracks_at_def)
  then show ?thesis
    by (simp add: safe_delete_playlist_def get_playlist_tracks_fresh called_def tracks_at_def
        fun_eq_iff)
qed

lemma with_backup_tracks [simp]: "tracks_at (with_backup b bk w) = tracks_at w"
  by (simp add: with_backup_def tracks_at_def fun_eq_iff)

lemma with_backup_backups [simp]:
  "backups (with_backup b bk w) = (if b then backups w @ [bk] else backups w)"
  by (simp add: with_backup_def)

lemma safe_delete_unverified:
  assumes "tracks_at w p = Some tp"
  shows "fst (fst (safe_delete_playlist p n b None w)) = True
         \<and> tracks_at (snd (safe_delete_playlist p n b None w)) = (tracks_at w)(p := None)
         \<and> backups (snd (safe_delete_playlist p n b None w))
             = (if b then backups w @ [\<lparr>bk_name = n, bk_id = p, bk_tracks = remdups tp\<rparr>]
                else backups w)"
proof -
  from assms obtain pl where pl: "playlists w p = Some pl" "pl_tracks pl = tp"
    by (auto simp: tracks_at_def)
  let ?w1 = "called (Get_playlist_items p)
            (w\<lparr>tracks_cache := (tracks_cache w)(p \<mapsto> remdups tp)\<rparr>)"
  let ?bk = "\<lparr>bk_name = n, bk_id = p, bk_tracks = remdups tp\<rparr>"
  let ?w2 = "with_backup b ?bk ?w1"
  have t1: "tracks_at ?w1 = tracks_at w" by (simp add: tracks_at_def called_def fun_eq_iff)
  have b1: "backups ?w1 = backups w" by (simp add: called_def)
  have t2: "tracks_at ?w2 p \<noteq> None" using t1 assms by simp
  have e: "safe_delete_playlist p n b None w
        = ((fst (api_unfollow p ?w2), if b then Some ?bk else None), snd (api_unfollow p ?w2))"
    using pl
    by (simp add: safe_delete_playlist_def get_playlist_tracks_fresh with_backup_def Let_def
        split: prod.splits)
  from api_unfollow_effect[OF t2] t1 b1 show ?thesis
    unfolding e by simp
qed

lemma safe_delete_verified:
  assumes "tracks_at w p = Some tp"
  shows "fst (fst (safe_delete_playlist p n b (Some v) w)) = covered_by w p v
         \<and> tracks_at (snd (safe_delete_playlist p n b (Some v) w))
             = (if covered_by w p v then (tracks_at w)(p := None) else tracks_at w)
         \<and> backups (snd (safe_delete_playlist p n b (Some v) w))
             = (if b then backups w @ [\<lparr>bk_name = n, bk_id = p, bk_tracks = remdups tp\<rparr>]
                else backups w)"
proof -
  from assms obtain pl where pl: "playlists w p = Some pl" "pl_tracks pl = tp"
    by (auto simp: tracks_at_def)
  let ?w1 = "called (Get_playlist_items p)
            (w\<lparr>tracks_cache := (tracks_cache w)(p \<mapsto> remdups tp)\<rparr>)"
  let ?bk = "\<lparr>bk_name = n, bk_id = p, bk_tracks = remdups tp\<rparr>"
  let ?w2 = "with_backup b ?bk ?w1"
  let ?g = "get_playlist_tracks v True ?w2"
  have t1: "tracks_at ?w1 = tracks_at w" by (simp add: tracks_at_def called_def fun_eq_iff)
  have b1: "backups ?w1 = backups w" by (simp add: called_def)
  have t2: "tracks_at ?w2 = tracks_at w" using t1 by simp
  have t3: "tracks_at (snd ?g) = tracks_at w" "backups (snd ?g) = backups ?w2"
    using get_playlist_tracks_same[of v True ?w2] t2 by simp_all
  have r3: "fst ?g = map_option remdups (tracks_at w v)"
    using get_playlist_tracks_fresh_result[of v ?w2] t2 by simp
  have e: "safe_delete_playlist p n b (Some v) w
        = (case fst ?g of
             None \<Rightarrow> ((False, if b then Some ?bk else None), snd ?g)
           | Some vs \<Rightarrow>
               if set (remdups tp) \<subseteq> set vs
               then ((fst (api_unfollow p (snd ?g)), if b then Some ?bk else None),
                     snd (api_unfollow p (snd ?g)))
               else ((False, if b then Some ?bk else None), snd ?g))"
    using pl
    by (simp add: safe_delete_playlist_def get_playlist_tracks_fresh[of p] with_backup_def Let_def
        split: prod.splits option.splits)
  show ?thesis
  proof (cases "tracks_at w v")
    case None
    then have "\<not> covered_by w p v" by (simp add: covered_by_def assms)
    with None r3 t3 b1 show ?thesis unfolding e by simp
  next
    case (Some tv)
    show ?thesis
    proof (cases "set tp \<subseteq> set tv")
      case True
      then have c: "covered_by w p v" by (simp add: covered_by_def assms Some)
      have "tracks_at (snd ?g) p \<noteq> None" using t3(1) assms by simp
      from api_unfollow_effect[OF this] c Some r3 t3 b1 True show ?thesis
        unfolding e by simp
    next
      case False
      then have c: "\<not> covered_by w p v" by (simp add: covered_by_def assms Some)
      with Some r3 t3 b1 False show ?thesis unfolding e by simp
    qed
  qed
qed


lemma safe_delete_verified_tracks:
  "tracks_at (snd (safe_delete_playlist p n b (Some v) w))
     = (if covered_by w p v then (tracks_at w)(p := None) else tracks_at w)"
proof (cases "tracks_at w p")
  case None
  then have "\<not> covered_by w p v" by (simp add: covered_by_def)
  with safe_delete_missing[OF None, of n b "Some v"] show ?thesis by simp
next
  case (Some tp)
  from safe_delete_verified[OF Some, of n b v] show ?thesis by simp
qed

lemma safe_delete_unverified_tracks:
  "tracks_at (snd (safe_delete_playlist p n b None w)) = (tracks_at w)(p := None)"
proof (cases "tracks_at w p")
  case None
  with safe_delete_missing[OF None, of n b None] show ?thesis by (simp add: fun_upd_idem)
next
  case (Some tp)
  from safe_delete_unverified[OF Some, of n b] show ?thesis by simp
qed

lemma tracks_intact_refl [simp]: "tracks_intact w w"
  by (simp add: tracks_intact_def)

lemma tracks_intact_trans:
  "tracks_intact a b \<Longrightarrow> tracks_intact b c \<Longrightarrow> tracks_intact a c"
  unfolding tracks_intact_def by metis

lemma tracks_intact_same: "tracks_at w' = tracks_at w \<Longrightarrow> tracks_intact w w'"
  by (simp add: tracks_intact_def)

lemma tracks_intact_remove: "tracks_at w' = (tracks_at w)(p := None) \<Longrightarrow> tracks_intact w w'"
  by (simp add: tracks_intact_def)

lemma covered_by_earlier:
  "tracks_intact w w1 \<Longrightarrow> covered_by w1 q k \<Longrightarrow> covered_by w q k"
proof -
  assume i: "tracks_intact w w1" and c: "covered_by w1 q k"
  from c obtain tq tk where t: "tracks_at w1 q = Some tq" "tracks_at w1 k = Some tk" "set tq \<subseteq> set tk"
    by (auto simp: covered_by_def split: option.splits)
  from i t(1) have "tracks_at w q = Some tq" unfolding tracks_intact_def by (metis option.distinct(1))
  moreover from i t(2) have "tracks_at w k = Some tk" unfolding tracks_intact_def by (metis option.distinct(1))
  ultimately show ?thesis using t(3) by (simp add: covered_by_def)
qed

lemma deleted_split:
  "tracks_intact w w1 \<Longrightarrow> deleted w w2 q \<Longrightarrow> deleted w w1 q \<or> deleted w1 w2 q"
  unfolding deleted_def by auto

lemma deleted_same: "tracks_at w1 = tracks_at w \<Longrightarrow> deleted w w2 q = deleted w1 w2 q"
  by (simp add: deleted_def)

lemma deleted_remove:
  "tracks_at w1 = (tracks_at w)(p := None) \<Longrightarrow> deleted w w1 q \<Longrightarrow> q = p"
  by (auto simp: deleted_def split: if_splits)

lemma not_deleted_same: "tracks_at w1 = tracks_at w \<Longrightarrow> \<not> deleted w w1 q"
  by (auto simp: deleted_def)

text \<open>The loop that deletes the duplicates of a kept playlist.\<close>

lemma delete_duplicates_verified:
  "tracks_intact w (delete_duplicates keep ds w)
   \<and> (\<forall>q. deleted w (delete_duplicates keep ds w) q \<longrightarrow> q \<in> snd ` set ds \<and> covered_by w q keep)"
proof (induction ds arbitrary: w)
  case Nil
  then show ?case by (auto simp: deleted_def)
next
  case (Cons d ds)
  obtain n p where d: "d = (n, p)" by (cases d)
  let ?w1 = "snd (safe_delete_playlist p n True (Some keep) w)"
  let ?w' = "delete_duplicates keep ds ?w1"
  have t1: "tracks_at ?w1 = (if covered_by w p keep then (tracks_at w)(p := None) else tracks_at w)"
    by (rule safe_delete_verified_tracks)
  have i1: "tracks_intact w ?w1" using t1 by (simp add: tracks_intact_def)
  have d1: "\<forall>q. deleted w ?w1 q \<longrightarrow> q = p \<and> covered_by w q keep"
    using t1 by (auto simp: deleted_def split: if_splits)
  from Cons.IH[of ?w1] have i2: "tracks_intact ?w1 ?w'"
    and d2: "\<forall>q. deleted ?w1 ?w' q \<longrightarrow> q \<in> snd ` set ds \<and> covered_by ?w1 q keep" by simp_all
  have e: "delete_duplicates keep (d # ds) w = ?w'" by (simp add: d)
  have "tracks_intact w ?w'" using i1 i2 by (rule tracks_intact_trans)
  moreover have "\<forall>q. deleted w ?w' q \<longrightarrow> q \<in> snd ` set (d # ds) \<and> covered_by w q keep"
  proof (intro allI impI)
    fix q assume "deleted w ?w' q"
    with i1 have "deleted w ?w1 q \<or> deleted ?w1 ?w' q" by (rule deleted_split)
    then show "q \<in> snd ` set (d # ds) \<and> covered_by w q keep"
    proof
      assume "deleted w ?w1 q"
      with d1 show ?thesis by (simp add: d)
    next
      assume "deleted ?w1 ?w' q"
      with d2 have "q \<in> snd ` set ds" "covered_by ?w1 q keep" by simp_all
      with covered_by_earlier[OF i1] show ?thesis by simp
    qed
  qed
  ultimately show ?case unfolding e by blast
qed

text \<open>The loop that deletes the monthly playlists after consolidation.\<close>

lemma delete_verified_monthlies_verified:
  "tracks_intact w (delete_verified_monthlies yearly final ms w)
   \<and> (\<forall>q. deleted w (delete_verified_monthlies yearly final ms w) q
          \<longrightarrow> q \<in> snd ` set ms \<and> covered_by w q yearly)"
proof (induction ms arbitrary: w)
  case Nil
  then show ?case by (auto simp: deleted_def)
next
  case (Cons m ms)
  obtain n p where m: "m = (n, p)" by (cases m)
  obtain r w1 where g: "get_playlist_tracks p True w = (r, w1)"
    by (cases "get_playlist_tracks p True w")
  have t1: "tracks_at w1 = tracks_at w" using get_playlist_tracks_same[of p True w] g by simp
  let ?w2 = "snd (safe_delete_playlist p n True (Some yearly) w1)"
  have t2: "tracks_at ?w2 = (if covered_by w1 p yearly then (tracks_at w1)(p := None) else tracks_at w1)"
    by (rule safe_delete_verified_tracks)
  have cov: "covered_by w1 x y = covered_by w x y" for x y unfolding covered_by_def t1 ..
  define wn where "wn = (if r = None \<or> \<not> set (the r) \<subseteq> set final then w1 else ?w2)"
  have e: "delete_verified_monthlies yearly final (m # ms) w
             = delete_verified_monthlies yearly final ms wn"
    using g by (cases r) (simp_all add: m wn_def)
  have tn: "tracks_at wn = tracks_at w \<or>
            (covered_by w p yearly \<and> tracks_at wn = (tracks_at w)(p := None))"
    using t1 t2 by (auto simp: wn_def cov)
  have i1: "tracks_intact w wn" using tn by (auto simp: tracks_intact_def)
  have d1: "\<forall>q. deleted w wn q \<longrightarrow> q = p \<and> covered_by w q yearly"
    using tn by (auto simp: deleted_def split: if_splits)
  let ?w' = "delete_verified_monthlies yearly final ms wn"
  from Cons.IH[of wn] have i2: "tracks_intact wn ?w'"
    and d2: "\<forall>q. deleted wn ?w' q \<longrightarrow> q \<in> snd ` set ms \<and> covered_by wn q yearly" by simp_all
  have "tracks_intact w ?w'" using i1 i2 by (rule tracks_intact_trans)
  moreover have "\<forall>q. deleted w ?w' q \<longrightarrow> q \<in> snd ` set (m # ms) \<and> covered_by w q yearly"
  proof (intro allI impI)
    fix q assume "deleted w ?w' q"
    with i1 have "deleted w wn q \<or> deleted wn ?w' q" by (rule deleted_split)
    then show "q \<in> snd ` set (m # ms) \<and> covered_by w q yearly"
    proof
      assume "deleted w wn q"
      with d1 show ?thesis by (simp add: m)
    next
      assume "deleted wn ?w' q"
      with d2 have "q \<in> snd ` set ms" "covered_by wn q yearly" by simp_all
      with covered_by_earlier[OF i1] show ?thesis by simp
    qed
  qed
  ultimately show ?case unfolding e by blast
qed


lemma safe_delete_backups_grow:
  "set (backups w) \<subseteq> set (backups (snd (safe_delete_playlist p n b v w)))"
proof (cases "tracks_at w p")
  case None
  from safe_delete_missing[OF None, of n b v] show ?thesis by simp
next
  case (Some tp)
  show ?thesis
  proof (cases v)
    case None
    from safe_delete_unverified[OF Some, of n b] None show ?thesis by auto
  next
    case S: (Some k)
    from safe_delete_verified[OF Some, of n b k] S show ?thesis by auto
  qed
qed

lemma delete_all_with_backup_backups_grow:
  "set (backups w) \<subseteq> set (backups (delete_all_with_backup xs w))"
proof (induction xs arbitrary: w)
  case Nil
  then show ?case by simp
next
  case (Cons x xs)
  obtain n p where x: "x = (n, p)" by (cases x)
  from Cons.IH[of "snd (safe_delete_playlist p n True None w)"]
    safe_delete_backups_grow[of w p n True None]
  show ?case by (auto simp: x)
qed

lemma backed_up_earlier:
  "tracks_intact w w1 \<Longrightarrow> tracks_at w1 q \<noteq> None \<Longrightarrow> backed_up w1 w' q \<Longrightarrow> backed_up w w' q"
proof -
  assume i: "tracks_intact w w1" and n: "tracks_at w1 q \<noteq> None" and b: "backed_up w1 w' q"
  from i n have "tracks_at w1 q = tracks_at w q" unfolding tracks_intact_def by metis
  with b show ?thesis by (simp add: backed_up_def)
qed

lemma delete_all_with_backup_spec:
  "tracks_intact w (delete_all_with_backup xs w)
   \<and> (\<forall>q. deleted w (delete_all_with_backup xs w) q
          \<longrightarrow> q \<in> snd ` set xs \<and> backed_up w (delete_all_with_backup xs w) q)
   \<and> (\<forall>q\<in>snd ` set xs. tracks_at (delete_all_with_backup xs w) q = None)"
proof (induction xs arbitrary: w)
  case Nil
  then show ?case by (auto simp: deleted_def)
next
  case (Cons x xs)
  obtain n p where x: "x = (n, p)" by (cases x)
  let ?w1 = "snd (safe_delete_playlist p n True None w)"
  let ?w' = "delete_all_with_backup xs ?w1"
  have e: "delete_all_with_backup (x # xs) w = ?w'" by (simp add: x)
  have t1: "tracks_at ?w1 = (tracks_at w)(p := None)" by (rule safe_delete_unverified_tracks)
  have i1: "tracks_intact w ?w1" using t1 by (rule tracks_intact_remove)
  from Cons.IH[of ?w1] have i2: "tracks_intact ?w1 ?w'"
    and d2: "\<forall>q. deleted ?w1 ?w' q \<longrightarrow> q \<in> snd ` set xs \<and> backed_up ?w1 ?w' q"
    and a2: "\<forall>q\<in>snd ` set xs. tracks_at ?w' q = None" by simp_all
  have i: "tracks_intact w ?w'" using i1 i2 by (rule tracks_intact_trans)
  have b1: "backed_up w ?w' p" if "tracks_at w p \<noteq> None"
  proof -
    from that obtain tp where tp: "tracks_at w p = Some tp" by blast
    from safe_delete_unverified[OF tp, of n True]
    have "\<lparr>bk_name = n, bk_id = p, bk_tracks = remdups tp\<rparr> \<in> set (backups ?w1)" by simp
    with delete_all_with_backup_backups_grow[of ?w1 xs]
    have "\<lparr>bk_name = n, bk_id = p, bk_tracks = remdups tp\<rparr> \<in> set (backups ?w')" by blast
    then show ?thesis unfolding backed_up_def tp list_ex_iff by force
  qed
  have d: "\<forall>q. deleted w ?w' q \<longrightarrow> q \<in> snd ` set (x # xs) \<and> backed_up w ?w' q"
  proof (intro allI impI)
    fix q assume dq: "deleted w ?w' q"
    with i1 have "deleted w ?w1 q \<or> deleted ?w1 ?w' q" by (rule deleted_split)
    then show "q \<in> snd ` set (x # xs) \<and> backed_up w ?w' q"
    proof
      assume "deleted w ?w1 q"
      with t1 have "q = p" by (rule deleted_remove)
      moreover from dq have "tracks_at w q \<noteq> None" by (simp add: deleted_def)
      ultimately show ?thesis using b1 by (simp add: x)
    next
      assume dd: "deleted ?w1 ?w' q"
      with d2 have "q \<in> snd ` set xs" "backed_up ?w1 ?w' q" by simp_all
      moreover from dd have "tracks_at ?w1 q \<noteq> None" by (simp add: deleted_def)
      ultimately show ?thesis using backed_up_earlier[OF i1] by simp
    qed
  qed
  have a: "\<forall>q\<in>snd ` set (x # xs). tracks_at ?w' q = None"
  proof
    fix q assume "q \<in> snd ` set (x # xs)"
    then have "q = p \<or> q \<in> snd ` set xs" by (auto simp: x)
    then show "tracks_at ?w' q = None"
    proof
      assume "q = p"
      then have "tracks_at ?w1 q = None" using t1 by simp
      with i2 show ?thesis unfolding tracks_intact_def by metis
    next
      assume "q \<in> snd ` set xs"
      with a2 show ?thesis by (rule bspec)
    qed
  qed
  from i d a show ?case unfolding e by blast
qed

text \<open>The loop over the groups of the duplicate detection.\<close>

lemma process_track_sets_verified:
  "tracks_intact w (process_track_sets gs w)
   \<and> (\<forall>q. deleted w (process_track_sets gs w) q \<longrightarrow>
         (\<exists>g\<in>set gs. 1 < length (snd g) \<and> fst g \<noteq> []
            \<and> q \<in> snd ` set (duplicates_of (snd g))
            \<and> covered_by w q (snd (kept_of (snd g)))))"
proof (induction gs arbitrary: w)
  case Nil
  then show ?case by (auto simp: deleted_def)
next
  case (Cons g gs)
  obtain ts pls where g: "g = (ts, pls)" by (cases g)
  define w1 where "w1 = (if length pls > 1 \<and> ts \<noteq> []
        then delete_duplicates (snd (kept_of pls)) (duplicates_of pls) w else w)"
  let ?w' = "process_track_sets gs w1"
  have e: "process_track_sets (g # gs) w = ?w'"
    by (simp add: g w1_def kept_of_def duplicates_of_def)
  have i1: "tracks_intact w w1"
    using delete_duplicates_verified[of w "snd (kept_of pls)" "duplicates_of pls"]
    by (simp add: w1_def)
  have d1: "\<forall>q. deleted w w1 q \<longrightarrow> 1 < length pls \<and> ts \<noteq> []
              \<and> q \<in> snd ` set (duplicates_of pls) \<and> covered_by w q (snd (kept_of pls))"
    using delete_duplicates_verified[of w "snd (kept_of pls)" "duplicates_of pls"]
    by (auto simp: w1_def deleted_def)
  from Cons.IH[of w1] have i2: "tracks_intact w1 ?w'"
    and d2: "\<forall>q. deleted w1 ?w' q \<longrightarrow>
         (\<exists>g\<in>set gs. 1 < length (snd g) \<and> fst g \<noteq> []
            \<and> q \<in> snd ` set (duplicates_of (snd g))
            \<and> covered_by w1 q (snd (kept_of (snd g))))" by simp_all
  have "tracks_intact w ?w'" using i1 i2 by (rule tracks_intact_trans)
  moreover have "\<forall>q. deleted w ?w' q \<longrightarrow>
         (\<exists>g\<in>set (g # gs). 1 < length (snd g) \<and> fst g \<noteq> []
            \<and> q \<in> snd ` set (duplicates_of (snd g))
            \<and> covered_by w q (snd (kept_of (snd g))))"
  proof (intro allI impI)
    fix q assume "deleted w ?w' q"
    with i1 have "deleted w w1 q \<or> deleted w1 ?w' q" by (rule deleted_split)
    then show "\<exists>g\<in>set (g # gs). 1 < length (snd g) \<and> fst g \<noteq> []
            \<and> q \<in> snd ` set (duplicates_of (snd g))
            \<and> covered_by w q (snd (kept_of (snd g)))"
    proof
      assume "deleted w w1 q"
      with d1 show ?thesis by (simp add: g)
    next
      assume "deleted w1 ?w' q"
      with d2 obtain h where h: "h \<in> set gs" "1 < length (snd h)" "fst h \<noteq> []"
        "q \<in> snd ` set (duplicates_of (snd h))" "covered_by w1 q (snd (kept_of (snd h)))"
        by blast
      from covered_by_earlier[OF i1 h(5)] h show ?thesis by auto
    qed
  qed
  ultimately show ?case unfolding e by blast
qed


lemma cache_agrees_same:
  "tracks_cache w1 = tracks_cache w \<Longrightarrow> playlists w1 = playlists w
    \<Longrightarrow> cache_agrees w1 q = cache_agrees w q"
  unfolding cache_agrees_def by (simp split: option.splits)

lemma caches_agree_get:
  assumes "caches_agree w"
  shows "caches_agree (snd (get_playlist_tracks p False w))"
proof (cases "tracks_cache w p")
  case (Some c)
  with assms show ?thesis by (simp add: get_playlist_tracks_def)
next
  case None
  show ?thesis
  proof (cases "playlists w p")
    case N: None
    have "cache_agrees (called (Get_playlist_items p) w) q = cache_agrees w q" for q
      by (rule cache_agrees_same) (simp_all add: called_def)
    with None N assms show ?thesis
      by (simp add: get_playlist_tracks_def caches_agree_def)
  next
    case (Some pl)
    let ?w1 = "called (Get_playlist_items p)
                  (w\<lparr>tracks_cache := (tracks_cache w)(p \<mapsto> remdups (pl_tracks pl))\<rparr>)"
    have "cache_agrees ?w1 q" for q
    proof (cases "q = p")
      case True
      with Some show ?thesis by (simp add: cache_agrees_def called_def)
    next
      case False
      from assms have "cache_agrees w q" by (simp add: caches_agree_def)
      with False show ?thesis by (simp add: cache_agrees_def called_def split: option.splits)
    qed
    with None Some show ?thesis
      by (simp add: get_playlist_tracks_def caches_agree_def)
  qed
qed

lemma get_cached_result:
  assumes "caches_agree w" and "fst (get_playlist_tracks p False w) = Some ts"
  shows "map_option set (tracks_at w p) = Some (set ts)"
proof (cases "tracks_cache w p")
  case (Some c)
  with assms(2) have c: "c = ts" by (simp add: get_playlist_tracks_def)
  from assms(1) have "cache_agrees w p" by (simp add: caches_agree_def)
  with Some c show ?thesis
    by (cases "playlists w p") (simp_all add: cache_agrees_def tracks_at_def)
next
  case None
  with assms(2) show ?thesis
    by (cases "playlists w p") (auto simp: get_playlist_tracks_def tracks_at_def)
qed

lemma group_sound_same: "tracks_at w1 = tracks_at w \<Longrightarrow> group_sound w1 ex g = group_sound w ex g"
  by (simp add: group_sound_def)

lemma insert_group_sound:
  assumes "\<forall>g\<in>set gs. group_sound w ex g" and "e \<in> set ex"
    and "map_option set (tracks_at w (snd e)) = Some (set ts)"
  shows "\<forall>g\<in>set (insert_group ts e gs). group_sound w ex g"
  using assms(1)
proof (induction gs)
  case Nil
  obtain n p where e: "e = (n, p)" by (cases e)
  show ?case using assms(2,3) by (simp add: group_sound_def e)
next
  case (Cons a gs)
  obtain k es where a: "a = (k, es)" by (cases a)
  from Cons.prems have sa: "group_sound w ex (k, es)" and sg: "\<forall>g\<in>set gs. group_sound w ex g"
    by (simp_all add: a)
  show ?case
  proof (cases "set k = set ts")
    case True
    obtain n p where e: "e = (n, p)" by (cases e)
    have "group_sound w ex (k, es @ [e])"
      using sa assms(2,3) True by (simp add: group_sound_def e)
    with sg True show ?thesis by (simp add: a)
  next
    case False
    with Cons.IH[OF sg] sa show ?thesis by (simp add: a)
  qed
qed

lemma build_track_sets_sound:
  assumes "caches_agree w" and "\<forall>g\<in>set gs. group_sound w ex g" and "set rest \<subseteq> set ex"
  shows "(\<forall>g\<in>set (fst (build_track_sets rest gs w)). group_sound w ex g)
         \<and> tracks_at (snd (build_track_sets rest gs w)) = tracks_at w"
  using assms
proof (induction rest arbitrary: gs w)
  case Nil
  then show ?case by simp
next
  case (Cons x rest)
  obtain n p where x: "x = (n, p)" by (cases x)
  obtain r w1 where g: "get_playlist_tracks p False w = (r, w1)"
    by (cases "get_playlist_tracks p False w")
  have t1: "tracks_at w1 = tracks_at w" using get_playlist_tracks_same[of p False w] g by simp
  have c1: "caches_agree w1" using caches_agree_get[OF Cons.prems(1), of p] g by simp
  have rest: "set rest \<subseteq> set ex" and xin: "(n, p) \<in> set ex" using Cons.prems(3) by (simp_all add: x)
  show ?case
  proof (cases r)
    case None
    have s1: "\<forall>g\<in>set gs. group_sound w1 ex g" using Cons.prems(2) by (simp add: group_sound_same[OF t1])
    from Cons.IH[OF c1 s1 rest] g None show ?thesis
      by (simp add: x t1 group_sound_same[OF t1])
  next
    case (Some ts)
    have "map_option set (tracks_at w p) = Some (set ts)"
      using get_cached_result[OF Cons.prems(1), of p ts] g Some by simp
    then have "\<forall>g\<in>set (insert_group ts (n, p) gs). group_sound w ex g"
      using insert_group_sound[OF Cons.prems(2) xin, of ts] by simp
    then have s1: "\<forall>g\<in>set (insert_group ts (n, p) gs). group_sound w1 ex g"
      by (simp add: group_sound_same[OF t1])
    from Cons.IH[OF c1 s1 rest] g Some show ?thesis
      by (simp add: x t1 group_sound_same[OF t1])
  qed
qed

lemma kept_of_first:
  assumes "pls \<noteq> []"
  shows "kept_of pls \<in> set pls \<and> (\<forall>x\<in>set pls. fst (kept_of pls) \<le> fst x)"
proof -
  let ?s = "sort_key fst pls"
  have ne: "?s \<noteq> []" using assms by (metis length_0_conv length_sort)
  then obtain a as where s: "?s = a # as" by (cases ?s) auto
  have "sorted (map fst ?s)" by simp
  then have "\<forall>x\<in>set as. fst a \<le> fst x" by (simp add: s)
  then have "\<forall>x\<in>set ?s. fst a \<le> fst x" by (simp add: s)
  moreover have "a \<in> set ?s" by (simp add: s)
  ultimately show ?thesis by (simp add: kept_of_def s[symmetric]) (simp add: s)
qed

lemma duplicates_of_subset: "set (duplicates_of pls) \<subseteq> set pls"
proof -
  have "set (tl (sort_key fst pls)) \<subseteq> set (sort_key fst pls)"
    by (cases "sort_key fst pls") auto
  then show ?thesis by (simp add: duplicates_of_def)
qed


text \<open>The groups of the duplicate detection hold each playlist once.\<close>

lemma insert_group_members:
  "(\<Union>a\<in>set (insert_group ts e gs). set (snd a)) = insert e (\<Union>a\<in>set gs. set (snd a))"
  by (induction ts e gs rule: insert_group.induct) simp_all

lemma insert_group_pids:
  "snd ` (\<Union>a\<in>set (insert_group ts e gs). set (snd a))
     = insert (snd e) (snd ` (\<Union>a\<in>set gs. set (snd a)))"
  unfolding insert_group_members by simp

lemma insert_group_distinct:
  "distinct (map snd (concat (map snd gs))) \<Longrightarrow> snd e \<notin> snd ` (\<Union>a\<in>set gs. set (snd a))
    \<Longrightarrow> distinct (map snd (concat (map snd (insert_group ts e gs))))"
proof (induction ts e gs rule: insert_group.induct)
  case (1 ts e)
  then show ?case by simp
next
  case (2 ts e k es gs)
  from "2.prems"(1) have de: "distinct (map snd es)"
    and dg: "distinct (map snd (concat (map snd gs)))"
    and dj: "snd ` set es \<inter> snd ` (\<Union>a\<in>set gs. set (snd a)) = {}" by simp_all
  from "2.prems"(2) have ne: "snd e \<notin> snd ` set es"
    and ng: "snd e \<notin> snd ` (\<Union>a\<in>set gs. set (snd a))" by (simp_all add: image_Un)
  show ?case
  proof (cases "set k = set ts")
    case True
    have "distinct (map snd (es @ [e]))" using de ne by simp
    moreover have "snd ` set (es @ [e]) \<inter> snd ` (\<Union>a\<in>set gs. set (snd a)) = {}"
      using dj ng by simp
    ultimately show ?thesis using dg True by simp
  next
    case False
    have ih: "distinct (map snd (concat (map snd (insert_group ts e gs))))"
      using "2.IH"[OF False dg ng] .
    have "snd ` set es \<inter> snd ` (\<Union>a\<in>set (insert_group ts e gs). set (snd a)) = {}"
      unfolding insert_group_pids using dj ne by simp
    with de ih False show ?thesis by simp
  qed
qed

lemma build_track_sets_distinct:
  "distinct (map snd (concat (map snd gs))) \<Longrightarrow> distinct (map snd rest)
    \<Longrightarrow> snd ` (\<Union>a\<in>set gs. set (snd a)) \<inter> snd ` set rest = {}
    \<Longrightarrow> distinct (map snd (concat (map snd (fst (build_track_sets rest gs w)))))"
proof (induction rest arbitrary: gs w)
  case Nil
  then show ?case by simp
next
  case (Cons x rest)
  obtain n p where x: "x = (n, p)" by (cases x)
  obtain r w1 where g: "get_playlist_tracks p False w = (r, w1)"
    by (cases "get_playlist_tracks p False w")
  from Cons.prems(2) have dr: "distinct (map snd rest)" and pr: "p \<notin> snd ` set rest"
    by (simp_all add: x)
  from Cons.prems(3) have pg: "p \<notin> snd ` (\<Union>a\<in>set gs. set (snd a))"
    and dj: "snd ` (\<Union>a\<in>set gs. set (snd a)) \<inter> snd ` set rest = {}"
    by (simp_all add: x)
  show ?case
  proof (cases r)
    case None
    from Cons.IH[OF Cons.prems(1) dr dj, of w1] g None show ?thesis by (simp add: x)
  next
    case (Some ts)
    have d1: "distinct (map snd (concat (map snd (insert_group ts (n, p) gs))))"
      using insert_group_distinct[OF Cons.prems(1), of "(n, p)" ts] pg by simp
    have "snd ` (\<Union>a\<in>set (insert_group ts (n, p) gs). set (snd a)) \<inter> snd ` set rest = {}"
      unfolding insert_group_pids using dj pr by simp
    from Cons.IH[OF d1 dr this, of w1] g Some show ?thesis by (simp add: x)
  qed
qed

lemma kept_not_own_duplicate:
  assumes "distinct (map snd pls)" and "pls \<noteq> []"
  shows "snd (kept_of pls) \<notin> snd ` set (duplicates_of pls)"
proof -
  let ?s = "sort_key fst pls"
  have ds: "distinct (map snd ?s)" using assms(1) by (simp add: distinct_map)
  have "length ?s = length pls" by simp
  with assms(2) have "?s \<noteq> []" by (cases ?s) simp_all
  then obtain a as where s: "?s = a # as" by (cases ?s) simp_all
  from ds show ?thesis by (simp add: kept_of_def duplicates_of_def s)
qed

lemma kept_not_duplicate:
  "distinct (map snd (concat (map snd gs))) \<Longrightarrow> g \<in> set gs \<Longrightarrow> h \<in> set gs \<Longrightarrow> snd g \<noteq> []
    \<Longrightarrow> snd (kept_of (snd g)) \<notin> snd ` set (duplicates_of (snd h))"
proof (induction gs)
  case Nil
  then show ?case by simp
next
  case (Cons a gs)
  from Cons.prems(1) have da: "distinct (map snd (snd a))"
    and dg: "distinct (map snd (concat (map snd gs)))"
    and dj: "snd ` set (snd a) \<inter> snd ` (\<Union>a\<in>set gs. set (snd a)) = {}" by simp_all
  have kin: "snd (kept_of (snd g)) \<in> snd ` set (snd g)"
    using kept_of_first[OF Cons.prems(4)] by (intro imageI) (rule conjunct1)
  have din: "y \<in> snd ` set (snd h)" if "y \<in> snd ` set (duplicates_of (snd h))" for y
  proof -
    from that obtain z where z: "z \<in> set (duplicates_of (snd h))" "y = snd z" by (rule imageE)
    from z(1) duplicates_of_subset[of "snd h"] have "z \<in> set (snd h)" by (rule subsetD[rotated])
    with z(2) show ?thesis by simp
  qed
  have sub: "y \<in> snd ` (\<Union>a\<in>set gs. set (snd a))" if "x \<in> set gs" "y \<in> snd ` set (snd x)" for x y
    using that by (simp add: image_UN) (rule bexI)
  from Cons.prems(2,3) consider (aa) "g = a" "h = a" | (ag) "g = a" "h \<in> set gs"
    | (ga) "g \<in> set gs" "h = a" | (gg) "g \<in> set gs" "h \<in> set gs"
    by (simp only: set_simps insert_iff) metis
  then show ?case
  proof cases
    case aa
    with kept_not_own_duplicate[OF da] Cons.prems(4) show ?thesis by simp
  next
    case ag
    show ?thesis
    proof
      assume "snd (kept_of (snd g)) \<in> snd ` set (duplicates_of (snd h))"
      then have "snd (kept_of (snd g)) \<in> snd ` (\<Union>a\<in>set gs. set (snd a))"
        using sub[OF ag(2)] din by simp
      moreover from kin ag(1) have "snd (kept_of (snd g)) \<in> snd ` set (snd a)" by simp
      ultimately show False using dj by blast
    qed
  next
    case ga
    show ?thesis
    proof
      assume "snd (kept_of (snd g)) \<in> snd ` set (duplicates_of (snd h))"
      then have "snd (kept_of (snd g)) \<in> snd ` set (snd a)" using din ga(2) by simp
      moreover have "snd (kept_of (snd g)) \<in> snd ` (\<Union>a\<in>set gs. set (snd a))"
        using sub[OF ga(1) kin] .
      ultimately show False using dj by blast
    qed
  next
    case gg
    with Cons.IH[OF dg _ _ Cons.prems(4)] show ?thesis by simp
  qed
qed

lemma insert_group_within:
  assumes "\<forall>g\<in>set gs. snd g \<noteq> [] \<and> set (snd g) \<subseteq> set ex" and "e \<in> set ex"
  shows "\<forall>g\<in>set (insert_group ts e gs). snd g \<noteq> [] \<and> set (snd g) \<subseteq> set ex"
  using assms(1)
proof (induction gs)
  case Nil
  with assms(2) show ?case by simp
next
  case (Cons a gs)
  obtain k es where a: "a = (k, es)" by (cases a)
  from Cons.prems have sa: "es \<noteq> [] \<and> set es \<subseteq> set ex"
    and sg: "\<forall>g\<in>set gs. snd g \<noteq> [] \<and> set (snd g) \<subseteq> set ex"
    by (simp_all add: a)
  from Cons.IH[OF sg] sa sg assms(2) show ?case by (simp add: a)
qed

lemma build_track_sets_within:
  assumes "\<forall>g\<in>set gs. snd g \<noteq> [] \<and> set (snd g) \<subseteq> set ex" and "set rest \<subseteq> set ex"
  shows "(\<forall>g\<in>set (fst (build_track_sets rest gs w)). snd g \<noteq> [] \<and> set (snd g) \<subseteq> set ex)
         \<and> tracks_at (snd (build_track_sets rest gs w)) = tracks_at w"
  using assms
proof (induction rest arbitrary: gs w)
  case Nil
  then show ?case by simp
next
  case (Cons x rest)
  obtain n p where x: "x = (n, p)" by (cases x)
  obtain r w1 where g: "get_playlist_tracks p False w = (r, w1)"
    by (cases "get_playlist_tracks p False w")
  have t1: "tracks_at w1 = tracks_at w" using get_playlist_tracks_same[of p False w] g by simp
  have rest: "set rest \<subseteq> set ex" and xin: "(n, p) \<in> set ex" using Cons.prems(2) by (simp_all add: x)
  show ?case
  proof (cases r)
    case None
    from Cons.IH[OF Cons.prems(1) rest, of w1] g None show ?thesis by (simp add: x t1)
  next
    case (Some ts)
    have "\<forall>g\<in>set (insert_group ts (n, p) gs). snd g \<noteq> [] \<and> set (snd g) \<subseteq> set ex"
      using Cons.prems(1) xin by (rule insert_group_within)
    from Cons.IH[OF this rest, of w1] g Some show ?thesis by (simp add: x t1)
  qed
qed

text \<open>The tracks of playlists of the example.\<close>

lemma example_tracks_at:
  "tracks_at example_world 4 = Some []"
  "tracks_at example_world 11 = Some [''r1'', ''r2'']"
  "tracks_at example_world 12 = Some [''r2'', ''r1'']"
  "tracks_at example_world 13 = Some []"
  by (simp_all add: tracks_at_def example_world_def example_tracks_def example_playlist_def)

lemma example_monthly_tracks:
  "tracks_at example_world 1 = Some [''t1'', ''t2'']"
  "tracks_at example_world 14 = Some [''o1'']"
  by (simp_all add: tracks_at_def example_world_def example_tracks_def example_playlist_def)

section \<open>C10: the cleanup of duplicates\<close>

text \<open>
  C10, as the code has it. The cleanup deletes nothing but duplicates: every playlist left
  keeps its tracks, and a playlist that is deleted is one of the members after the first, in
  the order of the names, of a group of two or more playlists with a track set that is not
  empty, and all its tracks were on the playlist kept for that group, the one whose name sorts
  first, which is not deleted itself. Where the track cache holds nothing stale, the tracks
  that the remote service holds for each member of a group are the group's track set, and no
  playlist without tracks is deleted. The ids of \<open>existing\<close> are those of different playlists.
\<close>

theorem duplicate_cleanup_is_verified:
  assumes "distinct (map snd existing)"
  shows "tracks_intact w (delete_duplicate_playlists max_playlists existing w)
    \<and> (\<forall>g\<in>set (fst (build_track_sets existing [] w)).
          snd g \<noteq> [] \<and> set (snd g) \<subseteq> set existing
          \<and> (caches_agree w \<longrightarrow> group_sound w existing g)
          \<and> kept_of (snd g) \<in> set (snd g)
          \<and> (\<forall>x\<in>set (snd g). fst (kept_of (snd g)) \<le> fst x)
          \<and> \<not> deleted w (delete_duplicate_playlists max_playlists existing w)
                (snd (kept_of (snd g))))
    \<and> (\<forall>q. deleted w (delete_duplicate_playlists max_playlists existing w) q \<longrightarrow>
          (caches_agree w \<longrightarrow> tracks_at w q \<noteq> Some [])
          \<and> (\<exists>g\<in>set (fst (build_track_sets existing [] w)).
                1 < length (snd g) \<and> fst g \<noteq> []
                \<and> q \<in> snd ` set (duplicates_of (snd g))
                \<and> covered_by w q (snd (kept_of (snd g)))))"
proof -
  obtain gs w1 where b: "build_track_sets existing [] w = (gs, w1)"
    by (cases "build_track_sets existing [] w")
  define w' where "w' = delete_duplicate_playlists max_playlists existing w"
  have e0: "\<forall>g\<in>set ([] :: (uri list \<times> (string \<times> pid) list) list).
              snd g \<noteq> [] \<and> set (snd g) \<subseteq> set existing" by simp
  from build_track_sets_within[OF e0 subset_refl, of w]
  have within: "\<forall>g\<in>set gs. snd g \<noteq> [] \<and> set (snd g) \<subseteq> set existing"
    and t1: "tracks_at w1 = tracks_at w"
    by (simp_all add: b)
  have sound: "\<forall>g\<in>set gs. group_sound w existing g" if c: "caches_agree w"
  proof -
    have "\<forall>g\<in>set ([] :: (uri list \<times> (string \<times> pid) list) list). group_sound w existing g"
      by simp
    from build_track_sets_sound[OF c this subset_refl] show ?thesis by (simp add: b)
  qed
  have dist: "distinct (map snd (concat (map snd gs)))"
    using build_track_sets_distinct[of "[]" existing w] assms b by simp
  have w'_cases: "w' = w \<or> w' = process_track_sets gs w1"
    by (simp add: w'_def delete_duplicate_playlists_def b)
  have intact1: "tracks_intact w w1" using t1 by (rule tracks_intact_same)
  have cov1: "covered_by w1 x y = covered_by w x y" for x y unfolding covered_by_def t1 ..
  have del1: "deleted w v x = deleted w1 v x" for v x by (simp add: deleted_def t1)
  have p1: "tracks_intact w1 (process_track_sets gs w1)"
    using process_track_sets_verified[of w1 gs] by (rule conjunct1)
  have p2: "\<forall>q. deleted w1 (process_track_sets gs w1) q \<longrightarrow>
         (\<exists>g\<in>set gs. 1 < length (snd g) \<and> fst g \<noteq> []
            \<and> q \<in> snd ` set (duplicates_of (snd g))
            \<and> covered_by w1 q (snd (kept_of (snd g))))"
    using process_track_sets_verified[of w1 gs] by (rule conjunct2)
  have intact: "tracks_intact w w'"
  proof (cases "w' = w")
    case True
    then show ?thesis by (simp add: tracks_intact_same)
  next
    case False
    with w'_cases have "w' = process_track_sets gs w1" by simp
    with tracks_intact_trans[OF intact1 p1] show ?thesis by simp
  qed
  have del: "\<exists>g\<in>set gs. 1 < length (snd g) \<and> fst g \<noteq> []
                \<and> q \<in> snd ` set (duplicates_of (snd g))
                \<and> covered_by w q (snd (kept_of (snd g)))" if "deleted w w' q" for q
  proof -
    have "\<not> deleted w w q" by (auto simp: deleted_def)
    with that have "w' \<noteq> w" by auto
    with w'_cases have e: "w' = process_track_sets gs w1" by simp
    from that have "deleted w1 (process_track_sets gs w1) q" by (simp add: del1 e)
    with p2 show ?thesis by (simp add: cov1)
  qed
  have nonempty: "caches_agree w \<longrightarrow> tracks_at w q \<noteq> Some []" if "deleted w w' q" for q
  proof
    assume c: "caches_agree w"
    from del[OF that] obtain g where g: "g \<in> set gs" "fst g \<noteq> []"
      "q \<in> snd ` set (duplicates_of (snd g))" by blast
    from g(3) obtain z where z: "z \<in> set (duplicates_of (snd g))" "q = snd z" by (rule imageE)
    from z(1) duplicates_of_subset[of "snd g"] have zin: "z \<in> set (snd g)" by (rule subsetD[rotated])
    from sound[OF c] g(1) have "group_sound w existing g" by (rule bspec)
    then have "\<forall>x\<in>set (snd g). map_option set (tracks_at w (snd x)) = Some (set (fst g))"
      by (simp add: group_sound_def list_all_iff split_beta)
    from this zin have "map_option set (tracks_at w (snd z)) = Some (set (fst g))" by (rule bspec)
    with g(2) z(2) show "tracks_at w q \<noteq> Some []" by (cases "tracks_at w q") auto
  qed
  have kept: "snd g \<noteq> [] \<and> set (snd g) \<subseteq> set existing
          \<and> (caches_agree w \<longrightarrow> group_sound w existing g)
          \<and> kept_of (snd g) \<in> set (snd g)
          \<and> (\<forall>x\<in>set (snd g). fst (kept_of (snd g)) \<le> fst x)
          \<and> \<not> deleted w w' (snd (kept_of (snd g)))" if "g \<in> set gs" for g
  proof -
    from within that have wi: "snd g \<noteq> [] \<and> set (snd g) \<subseteq> set existing" by (rule bspec)
    then have ne: "snd g \<noteq> []" and sub: "set (snd g) \<subseteq> set existing" by simp_all
    have s: "caches_agree w \<longrightarrow> group_sound w existing g"
    proof
      assume "caches_agree w"
      from sound[OF this] that show "group_sound w existing g" by (rule bspec)
    qed
    have nd: "\<not> deleted w w' (snd (kept_of (snd g)))"
    proof
      assume "deleted w w' (snd (kept_of (snd g)))"
      from del[OF this] obtain h where h: "h \<in> set gs"
        "snd (kept_of (snd g)) \<in> snd ` set (duplicates_of (snd h))" by blast
      from kept_not_duplicate[OF dist that h(1) ne] h(2) show False by simp
    qed
    from kept_of_first[OF ne] have "kept_of (snd g) \<in> set (snd g)"
      and "\<forall>x\<in>set (snd g). fst (kept_of (snd g)) \<le> fst x" by simp_all
    with ne sub s nd show ?thesis by (intro conjI)
  qed
  have dn: "\<forall>q. deleted w w' q \<longrightarrow>
          (caches_agree w \<longrightarrow> tracks_at w q \<noteq> Some [])
          \<and> (\<exists>g\<in>set gs. 1 < length (snd g) \<and> fst g \<noteq> []
                \<and> q \<in> snd ` set (duplicates_of (snd g))
                \<and> covered_by w q (snd (kept_of (snd g))))"
    using del nonempty by (intro allI impI conjI) (erule (1) impE[rotated])
  have kp: "\<forall>g\<in>set gs.
          snd g \<noteq> [] \<and> set (snd g) \<subseteq> set existing
          \<and> (caches_agree w \<longrightarrow> group_sound w existing g)
          \<and> kept_of (snd g) \<in> set (snd g)
          \<and> (\<forall>x\<in>set (snd g). fst (kept_of (snd g)) \<le> fst x)
          \<and> \<not> deleted w w' (snd (kept_of (snd g)))"
    using kept by (intro ballI)
  from intact kp dn show ?thesis
    unfolding w'_def[symmetric] b fst_conv by (intro conjI)
qed

text \<open>The example: the two road-trip playlists hold the same tracks. The one whose name sorts
  first, \<open>Copy of road trip\<close>, is kept and the other is deleted; the two playlists without tracks
  stay.\<close>

lemma example_groups:
  "fst (build_track_sets example_existing [] example_world)
     = [([''t1'', ''t2''], [(''AJFindsJan24'', 1)]), ([''t2'', ''t3''], [(''AJFindsFeb24'', 2)]),
        ([''t3''], [(''AJFindsMar24'', 3)]), ([], [(''AJFindsApr24'', 4), (''Empty'', 13)]),
        ([''t4''], [(''AJFindsMay24'', 5)]), ([''t5''], [(''AJFindsJun24'', 6)]),
        ([''t1'', ''t6''], [(''AJFindsJul24'', 7)]), ([''t7''], [(''AJFindsAug24'', 8)]),
        ([''t8''], [(''AJFindsSep24'', 9)]), ([''t9''], [(''AJFindsOct24'', 10)]),
        ([''r1'', ''r2''], [(''Road trip'', 11), (''Copy of road trip'', 12)]),
        ([''o1''], [(''AJFinds23'', 14)])]"
  by (simp add: example_existing_def get_playlist_tracks_def example_world_def example_tracks_def
      example_playlist_def called_def doubleton_eq_iff)

lemma example_process:
  "process_track_sets
     [([''t1'', ''t2''], [(''AJFindsJan24'', 1)]), ([''t2'', ''t3''], [(''AJFindsFeb24'', 2)]),
        ([''t3''], [(''AJFindsMar24'', 3)]), ([], [(''AJFindsApr24'', 4), (''Empty'', 13)]),
        ([''t4''], [(''AJFindsMay24'', 5)]), ([''t5''], [(''AJFindsJun24'', 6)]),
        ([''t1'', ''t6''], [(''AJFindsJul24'', 7)]), ([''t7''], [(''AJFindsAug24'', 8)]),
        ([''t8''], [(''AJFindsSep24'', 9)]), ([''t9''], [(''AJFindsOct24'', 10)]),
        ([''r1'', ''r2''], [(''Road trip'', 11), (''Copy of road trip'', 12)]),
        ([''o1''], [(''AJFinds23'', 14)])] w
     = snd (safe_delete_playlist 11 ''Road trip'' True (Some 12) w)"
  by simp

lemma example_cleanup:
  "tracks_at (delete_duplicate_playlists 1000 example_existing example_world)
     = (tracks_at example_world)(11 := None)"
proof -
  obtain gs w1 where b: "build_track_sets example_existing [] example_world = (gs, w1)"
    by (cases "build_track_sets example_existing [] example_world")
  have gs: "gs = fst (build_track_sets example_existing [] example_world)" by (simp add: b)
  have e0: "\<forall>g\<in>set ([] :: (uri list \<times> (string \<times> pid) list) list).
              snd g \<noteq> [] \<and> set (snd g) \<subseteq> set example_existing" by simp
  from build_track_sets_within[OF e0 subset_refl, of example_world]
  have t1: "tracks_at w1 = tracks_at example_world" by (simp add: b)
  have c: "covered_by w1 11 12" by (simp add: covered_by_def t1 example_tracks_at)
  have "delete_duplicate_playlists 1000 example_existing example_world
          = snd (safe_delete_playlist 11 ''Road trip'' True (Some 12) w1)"
    unfolding delete_duplicate_playlists_def b
    by (simp add: gs[unfolded example_groups] example_process) (simp add: example_existing_def)
  then show ?thesis by (simp add: safe_delete_verified_tracks c t1)
qed

lemma example_distinct: "distinct (map snd example_existing)"
  by (simp add: example_existing_def)

lemma example_caches_agree: "caches_agree example_world"
  by (simp add: caches_agree_def cache_agrees_def example_world_def)

theorem duplicate_cleanup_is_verified_witness:
  "distinct (map snd example_existing) \<and> caches_agree example_world
   \<and> tracks_intact example_world (delete_duplicate_playlists 1000 example_existing example_world)
   \<and> deleted example_world (delete_duplicate_playlists 1000 example_existing example_world) 11
   \<and> tracks_at example_world 11 \<noteq> Some []
   \<and> \<not> deleted example_world (delete_duplicate_playlists 1000 example_existing example_world) 12
   \<and> \<not> deleted example_world (delete_duplicate_playlists 1000 example_existing example_world) 13"
proof -
  let ?W = "delete_duplicate_playlists 1000 example_existing example_world"
  let ?g = "([''r1'', ''r2''], [(''Road trip'', 11 :: pid), (''Copy of road trip'', 12)])"
  note T = duplicate_cleanup_is_verified[OF example_distinct, of example_world 1000]
  from T have intact: "tracks_intact example_world ?W" by (rule conjunct1)
  from T have groups: "\<forall>g\<in>set (fst (build_track_sets example_existing [] example_world)).
          snd g \<noteq> [] \<and> set (snd g) \<subseteq> set example_existing
          \<and> (caches_agree example_world \<longrightarrow> group_sound example_world example_existing g)
          \<and> kept_of (snd g) \<in> set (snd g)
          \<and> (\<forall>x\<in>set (snd g). fst (kept_of (snd g)) \<le> fst x)
          \<and> \<not> deleted example_world ?W (snd (kept_of (snd g)))"
    by (rule conjunct2[THEN conjunct1])
  from T have dels: "\<forall>q. deleted example_world ?W q \<longrightarrow>
          (caches_agree example_world \<longrightarrow> tracks_at example_world q \<noteq> Some [])
          \<and> (\<exists>g\<in>set (fst (build_track_sets example_existing [] example_world)).
                1 < length (snd g) \<and> fst g \<noteq> []
                \<and> q \<in> snd ` set (duplicates_of (snd g))
                \<and> covered_by example_world q (snd (kept_of (snd g))))"
    by (rule conjunct2[THEN conjunct2])
  have d11: "deleted example_world ?W 11"
    by (simp add: deleted_def example_cleanup example_tracks_at)
  from dels d11 have "caches_agree example_world \<longrightarrow> tracks_at example_world 11 \<noteq> Some []"
    by simp
  with example_caches_agree have n11: "tracks_at example_world 11 \<noteq> Some []" by simp
  have "?g \<in> set (fst (build_track_sets example_existing [] example_world))"
    unfolding example_groups by simp
  with groups have "\<not> deleted example_world ?W (snd (kept_of (snd ?g)))" by blast
  moreover have "kept_of (snd ?g) = (''Copy of road trip'', 12)" by (simp add: kept_of_def)
  ultimately have n12: "\<not> deleted example_world ?W 12" by simp
  have n13: "\<not> deleted example_world ?W 13"
  proof
    assume "deleted example_world ?W 13"
    with dels have "caches_agree example_world \<longrightarrow> tracks_at example_world 13 \<noteq> Some []"
      by simp
    with example_caches_agree show False by (simp add: example_tracks_at)
  qed
  from example_distinct example_caches_agree intact d11 n11 n12 n13 show ?thesis
    by (intro conjI)
qed


lemma example_grown_tracks_at:
  "tracks_at example_world_grown 11 = Some [''r1'', ''r2'']"
  "tracks_at example_world_grown 12 = Some [''r2'', ''r1'', ''r3'']"
  "tracks_cache example_world_grown 12 = Some [''r2'', ''r1'']"
  by (simp_all add: example_world_grown_def api_playlist_add_items_def get_playlist_tracks_def
      called_def tracks_at_def example_world_def example_tracks_def example_playlist_def)

lemma example_grown_groups:
  "fst (build_track_sets example_existing [] example_world_grown)
     = [([''t1'', ''t2''], [(''AJFindsJan24'', 1)]), ([''t2'', ''t3''], [(''AJFindsFeb24'', 2)]),
        ([''t3''], [(''AJFindsMar24'', 3)]), ([], [(''AJFindsApr24'', 4), (''Empty'', 13)]),
        ([''t4''], [(''AJFindsMay24'', 5)]), ([''t5''], [(''AJFindsJun24'', 6)]),
        ([''t1'', ''t6''], [(''AJFindsJul24'', 7)]), ([''t7''], [(''AJFindsAug24'', 8)]),
        ([''t8''], [(''AJFindsSep24'', 9)]), ([''t9''], [(''AJFindsOct24'', 10)]),
        ([''r1'', ''r2''], [(''Road trip'', 11), (''Copy of road trip'', 12)]),
        ([''o1''], [(''AJFinds23'', 14)])]"
  by (simp add: example_existing_def example_world_grown_def api_playlist_add_items_def
      get_playlist_tracks_def example_world_def example_tracks_def
      example_playlist_def called_def doubleton_eq_iff)


text \<open>
  C10 as stated fails where the track cache is stale. The tracks of \<open>Copy of road trip\<close> were
  read, which filled the cache, and the track \<open>r3\<close> was added to the playlist afterwards without
  the cache entry being dropped, as the consolidation does for a yearly playlist. The cleanup
  reads the tracks through the cache, puts the playlist into one group with \<open>Road trip\<close>, whose
  track set is another one by now, and deletes \<open>Road trip\<close>.
\<close>

theorem duplicate_cleanup_counterexample:
  "tracks_at example_world_grown 11 = Some [''r1'', ''r2'']
   \<and> tracks_at example_world_grown 12 = Some [''r2'', ''r1'', ''r3'']
   \<and> tracks_cache example_world_grown 12 = Some [''r2'', ''r1'']
   \<and> tracks_at (delete_duplicate_playlists 1000 example_existing example_world_grown) 11 = None"
proof -
  obtain gs w1 where b: "build_track_sets example_existing [] example_world_grown = (gs, w1)"
    by (cases "build_track_sets example_existing [] example_world_grown")
  have gs: "gs = fst (build_track_sets example_existing [] example_world_grown)" by (simp add: b)
  have e0: "\<forall>g\<in>set ([] :: (uri list \<times> (string \<times> pid) list) list).
              snd g \<noteq> [] \<and> set (snd g) \<subseteq> set example_existing" by simp
  from build_track_sets_within[OF e0 subset_refl, of example_world_grown]
  have t1: "tracks_at w1 = tracks_at example_world_grown" by (simp add: b)
  have c: "covered_by w1 11 12" by (simp add: covered_by_def t1 example_grown_tracks_at)
  have "delete_duplicate_playlists 1000 example_existing example_world_grown
          = snd (safe_delete_playlist 11 ''Road trip'' True (Some 12) w1)"
    unfolding delete_duplicate_playlists_def b
    by (simp add: gs[unfolded example_grown_groups] example_process) (simp add: example_existing_def)
  then have "tracks_at (delete_duplicate_playlists 1000 example_existing example_world_grown) 11 = None"
    by (simp add: safe_delete_verified_tracks c t1)
  with example_grown_tracks_at show ?thesis by (intro conjI)
qed
section \<open>C1: what guards a deletion\<close>

text \<open>
  C1, as the code has it. The loop that deletes the monthly playlists of a consolidated year and
  the loop that deletes the duplicates of a kept playlist leave every remaining playlist with
  its tracks, and delete a playlist only if it was handed to them and all its tracks were on
  the successor, the yearly playlist or the kept copy: a playlist with a track that the
  successor lacks is not deleted. The cleanup of legacy playlists has no successor to verify
  against: it leaves every remaining playlist with its tracks, deletes every playlist it
  selects, and for each one it deletes a backup with the playlist's tracks has been written.
\<close>

theorem deletions_are_verified_or_backed_up:
  "(tracks_intact w (delete_verified_monthlies yearly final_yearly_tracks ms w)
      \<and> (\<forall>q. deleted w (delete_verified_monthlies yearly final_yearly_tracks ms w) q
             \<longrightarrow> q \<in> snd ` set ms \<and> covered_by w q yearly))
   \<and> (tracks_intact w (delete_duplicates keep ds w)
      \<and> (\<forall>q. deleted w (delete_duplicates keep ds w) q
             \<longrightarrow> q \<in> snd ` set ds \<and> covered_by w q keep))
   \<and> (tracks_intact w (delete_automated_monthly_and_genre_playlists cfg current_year existing w)
      \<and> (\<forall>q. deleted w (delete_automated_monthly_and_genre_playlists cfg current_year existing w) q
             \<longrightarrow> q \<in> snd ` set (legacy_to_delete cfg current_year existing)
                 \<and> backed_up w
                       (delete_automated_monthly_and_genre_playlists cfg current_year existing w) q)
      \<and> (\<forall>q\<in>snd ` set (legacy_to_delete cfg current_year existing).
             tracks_at (delete_automated_monthly_and_genre_playlists cfg current_year existing w) q
               = None))"
proof (intro conjI)
  show "tracks_intact w (delete_verified_monthlies yearly final_yearly_tracks ms w)"
    using delete_verified_monthlies_verified[of w yearly final_yearly_tracks ms]
    by (rule conjunct1)
  show "\<forall>q. deleted w (delete_verified_monthlies yearly final_yearly_tracks ms w) q
             \<longrightarrow> q \<in> snd ` set ms \<and> covered_by w q yearly"
    using delete_verified_monthlies_verified[of w yearly final_yearly_tracks ms]
    by (rule conjunct2)
  show "tracks_intact w (delete_duplicates keep ds w)"
    using delete_duplicates_verified[of w keep ds] by (rule conjunct1)
  show "\<forall>q. deleted w (delete_duplicates keep ds w) q
             \<longrightarrow> q \<in> snd ` set ds \<and> covered_by w q keep"
    using delete_duplicates_verified[of w keep ds] by (rule conjunct2)
  note L = delete_all_with_backup_spec[of w "legacy_to_delete cfg current_year existing"]
  show "tracks_intact w (delete_automated_monthly_and_genre_playlists cfg current_year existing w)"
    unfolding delete_automated_monthly_and_genre_playlists_def using L by (rule conjunct1)
  show "\<forall>q. deleted w (delete_automated_monthly_and_genre_playlists cfg current_year existing w) q
             \<longrightarrow> q \<in> snd ` set (legacy_to_delete cfg current_year existing)
                 \<and> backed_up w
                       (delete_automated_monthly_and_genre_playlists cfg current_year existing w) q"
    unfolding delete_automated_monthly_and_genre_playlists_def
    using L by (rule conjunct2[THEN conjunct1])
  show "\<forall>q\<in>snd ` set (legacy_to_delete cfg current_year existing).
             tracks_at (delete_automated_monthly_and_genre_playlists cfg current_year existing w) q
               = None"
    unfolding delete_automated_monthly_and_genre_playlists_def
    using L by (rule conjunct2[THEN conjunct2])
qed

text \<open>The playlists that the legacy cleanup selects in the example: the monthly playlists, and
  not the yearly playlist of 2023.\<close>

lemma years_list: "[2015..<2024 + 2] = [2015, 2016, 2017, 2018, 2019, 2020, 2021, 2022, 2023, 2024, 2025 :: nat]"
  by (simp add: upt_rec)

lemma example_yearly_names:
  "legacy_yearly_names default_config 2024 =
     [''AJFinds15'', ''AJTop15'', ''AJDiscovery15'', ''AJFinds16'', ''AJTop16'', ''AJDiscovery16'',
      ''AJFinds17'', ''AJTop17'', ''AJDiscovery17'', ''AJFinds18'', ''AJTop18'', ''AJDiscovery18'',
      ''AJFinds19'', ''AJTop19'', ''AJDiscovery19'', ''AJFinds20'', ''AJTop20'', ''AJDiscovery20'',
      ''AJFinds21'', ''AJTop21'', ''AJDiscovery21'', ''AJFinds22'', ''AJTop22'', ''AJDiscovery22'',
      ''AJFinds23'', ''AJTop23'', ''AJDiscovery23'', ''AJFinds24'', ''AJTop24'', ''AJDiscovery24'',
      ''AJFinds25'', ''AJTop25'', ''AJDiscovery25'']"
  unfolding legacy_yearly_names_def years_list
  by (simp add: default_config_def default_yearly_finds_name_def default_yearly_name_def
      str_nat.simps digit_char_def Let_def)


lemma example_legacy:
  "legacy_to_delete default_config 2024 example_existing
     = [(''AJFindsJan24'', 1), (''AJFindsFeb24'', 2), (''AJFindsMar24'', 3), (''AJFindsApr24'', 4),
        (''AJFindsMay24'', 5), (''AJFindsJun24'', 6), (''AJFindsJul24'', 7), (''AJFindsAug24'', 8),
        (''AJFindsSep24'', 9), (''AJFindsOct24'', 10)]"
  unfolding legacy_to_delete_def example_yearly_names
  by (simp add: example_existing_def default_config_def is_automated_monthly_playlist_def
      is_automated_genre_playlist_def startswith_def MONTH_NAMES_def isdigit_def
      is_digit_char_def Let_def)

text \<open>The example: the playlist of January 2024 is not deleted in favour of the yearly playlist of
  2023, which lacks its tracks; \<open>Road trip\<close> is deleted in favour of its copy, which holds its
  tracks; and the legacy cleanup deletes the playlist of January 2024 after its backup.\<close>

lemma example_delete_duplicate:
  "tracks_at (delete_duplicates 12 [(''Road trip'', 11)] example_world)
     = (tracks_at example_world)(11 := None)"
proof -
  have "covered_by example_world 11 12" by (simp add: covered_by_def example_tracks_at)
  then show ?thesis by (simp add: safe_delete_verified_tracks)
qed

theorem deletions_are_verified_or_backed_up_witness:
  "\<not> deleted example_world
       (delete_verified_monthlies 14 [''o1''] [(''AJFindsJan24'', 1)] example_world) 1
   \<and> deleted example_world (delete_duplicates 12 [(''Road trip'', 11)] example_world) 11
   \<and> covered_by example_world 11 12
   \<and> deleted example_world
       (delete_automated_monthly_and_genre_playlists default_config 2024 example_existing
          example_world) 1
   \<and> backed_up example_world
       (delete_automated_monthly_and_genre_playlists default_config 2024 example_existing
          example_world) 1"
proof -
  let ?L = "delete_automated_monthly_and_genre_playlists default_config 2024 example_existing
              example_world"
  note T = deletions_are_verified_or_backed_up[of example_world 14 "[''o1'']"
      "[(''AJFindsJan24'', 1)]" 12 "[(''Road trip'', 11)]" default_config 2024 example_existing]
  from T have m: "\<forall>q. deleted example_world
       (delete_verified_monthlies 14 [''o1''] [(''AJFindsJan24'', 1)] example_world) q
             \<longrightarrow> q \<in> snd ` set [(''AJFindsJan24'', 1 :: pid)] \<and> covered_by example_world q 14"
    by (rule conjunct1[THEN conjunct2])
  from T have d: "\<forall>q. deleted example_world (delete_duplicates 12 [(''Road trip'', 11)] example_world) q
             \<longrightarrow> q \<in> snd ` set [(''Road trip'', 11 :: pid)] \<and> covered_by example_world q 12"
    by (rule conjunct2[THEN conjunct1, THEN conjunct2])
  from T have l1: "\<forall>q. deleted example_world ?L q
             \<longrightarrow> q \<in> snd ` set (legacy_to_delete default_config 2024 example_existing)
                 \<and> backed_up example_world ?L q"
    by (rule conjunct2[THEN conjunct2, THEN conjunct2, THEN conjunct1])
  from T have l2: "\<forall>q\<in>snd ` set (legacy_to_delete default_config 2024 example_existing).
             tracks_at ?L q = None"
    by (rule conjunct2[THEN conjunct2, THEN conjunct2, THEN conjunct2])
  have nc: "\<not> covered_by example_world 1 14"
    unfolding covered_by_def example_monthly_tracks by simp
  have w1: "\<not> deleted example_world
       (delete_verified_monthlies 14 [''o1''] [(''AJFindsJan24'', 1)] example_world) 1"
  proof
    assume "deleted example_world
       (delete_verified_monthlies 14 [''o1''] [(''AJFindsJan24'', 1)] example_world) 1"
    with m have "covered_by example_world 1 14" by simp
    with nc show False ..
  qed
  have w2: "deleted example_world (delete_duplicates 12 [(''Road trip'', 11)] example_world) 11"
    unfolding deleted_def example_delete_duplicate example_tracks_at by simp
  with d have w3: "covered_by example_world 11 12" by simp
  have "(1 :: pid) \<in> snd ` set (legacy_to_delete default_config 2024 example_existing)"
    unfolding example_legacy by simp
  with l2 have "tracks_at ?L 1 = None" by (rule bspec)
  then have w4: "deleted example_world ?L 1" unfolding deleted_def example_monthly_tracks by simp
  with l1 have w5: "backed_up example_world ?L 1" by simp
  from w1 w2 w3 w4 w5 show ?thesis by (intro conjI)
qed

text \<open>
  C1 as stated fails for the cleanup of legacy playlists. The playlist of January 2024 is
  deleted although no yearly playlist of 2024 exists and the one yearly playlist there is, that
  of 2023, holds none of its tracks; the playlist of July, the only other one with the track
  \<open>t1\<close>, is deleted in the same run.
\<close>

theorem legacy_cleanup_counterexample:
  "map_of example_existing (yearly_finds_name default_config ''2024'') = None
   \<and> tracks_at example_world 1 = Some [''t1'', ''t2'']
   \<and> tracks_at example_world 14 = Some [''o1'']
   \<and> \<not> covered_by example_world 1 14
   \<and> deleted example_world
       (delete_automated_monthly_and_genre_playlists default_config 2024 example_existing
          example_world) 1
   \<and> deleted example_world
       (delete_automated_monthly_and_genre_playlists default_config 2024 example_existing
          example_world) 7"
proof -
  let ?L = "delete_automated_monthly_and_genre_playlists default_config 2024 example_existing
              example_world"
  have y: "map_of example_existing (yearly_finds_name default_config ''2024'') = None"
    by (simp add: default_config_def default_yearly_finds_name_def example_existing_def)
  have nc: "\<not> covered_by example_world 1 14"
    unfolding covered_by_def example_monthly_tracks by simp
  have t7: "tracks_at example_world 7 = Some [''t1'', ''t6'']"
    by (simp add: tracks_at_def example_world_def example_tracks_def example_playlist_def)
  from delete_all_with_backup_spec[of example_world
      "legacy_to_delete default_config 2024 example_existing"]
  have gone: "\<forall>q\<in>snd ` set (legacy_to_delete default_config 2024 example_existing).
             tracks_at ?L q = None"
    unfolding delete_automated_monthly_and_genre_playlists_def
    by (rule conjunct2[THEN conjunct2])
  have "(1 :: pid) \<in> snd ` set (legacy_to_delete default_config 2024 example_existing)"
    unfolding example_legacy by simp
  with gone have "tracks_at ?L 1 = None" by (rule bspec)
  then have d1: "deleted example_world ?L 1" unfolding deleted_def example_monthly_tracks by simp
  have "(7 :: pid) \<in> snd ` set (legacy_to_delete default_config 2024 example_existing)"
    unfolding example_legacy by simp
  with gone have "tracks_at ?L 7 = None" by (rule bspec)
  then have d7: "deleted example_world ?L 7" unfolding deleted_def t7 by simp
  from y example_monthly_tracks nc d1 d7 show ?thesis by (intro conjI)
qed
end
